theory Spec2Isabelle
  imports Main "HOL-Library.Word" "HOL-Library.Sublist"
begin

section \<open>The BGP Prefix-SID attribute decoder of obmp-collector\<close>

text \<open>
  A shallow embedding of \<^verbatim>\<open>src/Server/src/bgp/BGPPrefixSID.cpp\<close> and
  \<^verbatim>\<open>BGPPrefixSID.h\<close>.

  \<^item> The memory a \<^verbatim>\<open>u_char *data\<close> points into is a list of bytes \<open>buf\<close>,
    and a pointer is an integer offset into it (pointer arithmetic such as
    \<^verbatim>\<open>data += (tlv.len-1)\<close> can move backwards, so offsets are \<open>int\<close>).
  \<^item> The C++ performs no bounds check. A read outside \<open>buf\<close> is undefined
    behaviour there; the embedding makes it the explicit outcome \<open>Overread\<close>, with
    which the function ends. Moving a pointer outside the buffer without reading
    through it is not a fault of the embedding.
  \<^item> \<^verbatim>\<open>int\<close> counters (\<^verbatim>\<open>attr_len\<close>, \<^verbatim>\<open>tlv_len\<close>, \<^verbatim>\<open>subtlv_len\<close>,
    \<^verbatim>\<open>tlv_cnt\<close>, \<^verbatim>\<open>subtlv_cnt\<close>) are \<open>int\<close>: every update subtracts at most
    \<open>65538\<close> or adds \<open>1\<close>, and each loop runs a bounded number of times from a 32-bit
    start value reached through \<^verbatim>\<open>parseBGPPrefixSIDAttr\<close>, so no update wraps. A
    direct call of \<^verbatim>\<open>parseSRv6L3ServiceTLV\<close> with a \<^verbatim>\<open>tlv_len\<close> next to
    \<^verbatim>\<open>INT_MIN\<close>, where the subtraction would overflow, is outside the embedding.
  \<^item> The logger is not modelled. Each decode function returns, beside its result, the
    list of the \<^verbatim>\<open>SELF_DEBUG\<close> statements it reached, also when it ends with
    \<open>Overread\<close>.
\<close>

subsection \<open>Bytes, faults and \<^verbatim>\<open>readData\<close>\<close>

type_synonym u8 = "8 word"
type_synonym u16 = "16 word"

datatype error = Overread

text \<open>
  \<^verbatim>\<open>
  void BGPPrefixSID::readData(u_char *field, u_char *data, size_t size, bool host_byte_order) {
      int j=0;
      if(host_byte_order){
          for(int i=size-1; i>=0; i--){ field[j++] = data[i]; }
      } else {
          for(int i=0; i<size; i++){ field[j++] = data[i]; }
      }
  }
  \<close>
  The result is the content of \<open>field[0..size)\<close> after the call. The guard is the
  embedding's: it holds exactly when every \<open>data[i]\<close> read lies inside the buffer.
\<close>

definition in_buf :: "u8 list \<Rightarrow> int \<Rightarrow> nat \<Rightarrow> bool" where
  "in_buf buf data sz \<longleftrightarrow> sz = 0 \<or> (0 \<le> data \<and> data + int sz \<le> int (length buf))"

definition readData :: "u8 list \<Rightarrow> int \<Rightarrow> nat \<Rightarrow> bool \<Rightarrow> error + u8 list" where
  "readData buf data sz host_byte_order =
     (if in_buf buf data sz then
        Inr (if host_byte_order
             then map (\<lambda>i. buf ! (nat data + i)) (rev [0..<sz])
             else map (\<lambda>i. buf ! (nat data + i)) [0..<sz])
      else Inl Overread)"

text \<open>
  \<^verbatim>\<open>readData(uint16_t *field, ...)\<close> writes the two bytes into the object
  representation of a \<^verbatim>\<open>uint16_t\<close>. On the little-endian hosts the collector is
  built for, \<open>field[0]\<close> is the low byte.
\<close>

definition uint16_of_field :: "u8 list \<Rightarrow> u16" where
  "uint16_of_field field = word_of_nat (unat (field ! 0) + 256 * unat (field ! 1))"

subsection \<open>The endpoint-behavior table\<close>

text \<open>
  \<^verbatim>\<open>endpoint_behavior_codepoint_to_name(uint16_t code)\<close> is a \<^verbatim>\<open>switch\<close> whose
  every label returns, followed by two range tests and a default. The labels are the
  keys of \<open>endpoint_behavior_table\<close>, in the order of the header; they are pairwise
  distinct, so the first match that \<open>map_of\<close> takes is the label the switch jumps to.
  The comparisons of the C++ are made after integer promotion, hence on \<open>unat code\<close>.
\<close>

definition endpoint_behavior_table :: "(nat \<times> string) list" where
  "endpoint_behavior_table =
    [(0, ''Reserved''),
     (1, ''End''),
     (2, ''End with PSP''),
     (3, ''End with USP''),
     (4, ''End with PSP & USP''),
     (5, ''End.X''),
     (6, ''End.X with PSP''),
     (7, ''End.X with USP''),
     (8, ''End.X with PSP & USP''),
     (9, ''End.T''),
     (10, ''End.T with PSP''),
     (11, ''End.T with USP''),
     (12, ''End.T with PSP & USP''),
     (13, ''End.B6.Insert''),
     (14, ''End.B6.Encaps''),
     (15, ''End.BM''),
     (16, ''End.DX6''),
     (17, ''End.DX4''),
     (18, ''End.DT6''),
     (19, ''End.DT4''),
     (20, ''End.DT46''),
     (21, ''End.DX2''),
     (22, ''End.DX2V''),
     (23, ''End.DT2U''),
     (24, ''End.DT2M''),
     (25, ''Reserved''),
     (26, ''End.B6.Insert.Red''),
     (27, ''End.B6.Encaps.Red''),
     (28, ''End with USD''),
     (29, ''End with PSP & USD''),
     (30, ''End with USP & USD''),
     (31, ''End with PSP, USP & USD''),
     (32, ''End.X with USD''),
     (33, ''End.X with PSP & USD''),
     (34, ''End.X with USP & USD''),
     (35, ''End.X with PSP, USP & USD''),
     (36, ''End.T with USD''),
     (37, ''End.T with PSP & USD''),
     (38, ''End.T with USP & USD''),
     (39, ''End.T with PSP, USP & USD''),
     (40, ''End.MAP''),
     (41, ''End.Limit''),
     (42, ''End with NEXT-ONLY-CSID''),
     (43, ''End with NEXT-CSID''),
     (44, ''End with NEXT-CSID & PSP''),
     (45, ''End with NEXT-CSID & USP''),
     (46, ''End with NEXT-CSID, PSP & USP''),
     (47, ''End with NEXT-CSID & USD''),
     (48, ''End with NEXT-CSID, PSP & USD''),
     (49, ''End with NEXT-CSID, USP & USD''),
     (50, ''End with NEXT-CSID, PSP, USP & USD''),
     (51, ''End.X with NEXT-ONLY-CSID''),
     (52, ''End.X with NEXT-CSID''),
     (53, ''End.X with NEXT-CSID & PSP''),
     (54, ''End.X with NEXT-CSID & USP''),
     (55, ''End.X with NEXT-CSID, PSP & USP''),
     (56, ''End.X with NEXT-CSID & USD''),
     (57, ''End.X with NEXT-CSID, PSP & USD''),
     (58, ''End.X with NEXT-CSID, USP & USD''),
     (59, ''End.X with NEXT-CSID, PSP, USP & USD''),
     (60, ''End.DX6 with NEXT-CSID''),
     (61, ''End.DX4 with NEXT-CSID''),
     (62, ''End.DT6 with NEXT-CSID''),
     (63, ''End.DT4 with NEXT-CSID''),
     (64, ''End.DT46 with NEXT-CSID''),
     (65, ''End.DX2 with NEXT-CSID''),
     (66, ''End.DX2V with NEXT-CSID''),
     (67, ''End.DT2U with NEXT-CSID''),
     (68, ''End.DT2M with NEXT-CSID''),
     (69, ''End.M.GTP6.D''),
     (70, ''End.M.GTP6.Di''),
     (71, ''End.M.GTP6.E''),
     (72, ''End.M.GTP4.E''),
     (73, ''End.DTM''),
     (74, ''End.M (Mirror SID)''),
     (75, ''End.Replicate''),
     (76, ''End.DTMC4''),
     (77, ''End.DTMC6''),
     (78, ''End.DTMC46''),
     (79, ''End.BXC''),
     (80, ''End.BXC with PSP''),
     (81, ''End.BXC with USP''),
     (82, ''End.BXC with USD''),
     (83, ''End.BXC with PSP, USP & USD''),
     (100, ''End.PSID''),
     (101, ''End with REPLACE-CSID''),
     (102, ''End with REPLACE-CSID & PSP''),
     (103, ''End with REPLACE-CSID & USP''),
     (104, ''End with REPLACE-CSID, PSP & USP''),
     (105, ''End.X with REPLACE-CSID''),
     (106, ''End.X with REPLACE-CSID & PSP''),
     (107, ''End.X with REPLACE-CSID & USP''),
     (108, ''End.X with REPLACE-CSID, PSP & USP''),
     (109, ''End.T with COC''),
     (110, ''End.T with PSP&COC''),
     (112, ''End.T with PSP&USP&COC''),
     (128, ''End with REPLACE-CSID & USD''),
     (129, ''End with REPLACE-CSID, USP & USD''),
     (130, ''End with REPLACE-CSID, PSP & USD''),
     (131, ''End with REPLACE-CSID, PSP, USP & USD''),
     (132, ''End.X with REPLACE-CSID & USD''),
     (133, ''End.X with REPLACE-CSID, PSP & USD''),
     (134, ''End.X with REPLACE-CSID, USP & USD''),
     (135, ''End.X with REPLACE-CSID, PSP, USP & USD''),
     (137, ''End.T with PSP&USD&COC''),
     (139, ''End.T with PSP&USP&USD&COC''),
     (150, ''End.XU''),
     (151, ''End.XU with PSP''),
     (152, ''End.XU with USP''),
     (153, ''End.XU with USD''),
     (154, ''End.XU with PSP, USP & USD''),
     (155, ''End.XU with REPPLACE-CSID''),
     (156, ''End.XU with REPPLACE-CSID & PSP''),
     (157, ''End.XU with REPPLACE-CSID & PSP & USP & USD''),
     (32767, ''The SID defined in [RFC8754]''),
     (65535, ''Opaque'')]"

definition endpoint_behavior_codepoint_to_name :: "u16 \<Rightarrow> string" where
  "endpoint_behavior_codepoint_to_name code =
     (case map_of endpoint_behavior_table (unat code) of
        Some name \<Rightarrow> name
      | None \<Rightarrow>
          if 32768 \<le> unat code \<and> unat code \<le> 34815 then ''Reserved for Private Use''
          else if 34816 \<le> unat code \<and> unat code \<le> 65534 then ''Reserved''
          else ''Unassigned'')"

subsection \<open>The C library's \<^verbatim>\<open>inet_ntop\<close>\<close>

text \<open>
  \<^verbatim>\<open>inet_ntop(AF_INET6, src, dst, size)\<close> belongs to the C library, not to the
  collector. The decode functions below take the rendering as a parameter; where a
  concrete rendering is needed, \<open>inet_ntop6\<close> follows the library's algorithm: the
  eight 16-bit groups in lower-case hexadecimal without leading zeros, the leftmost
  longest run of two or more zero groups written as \<open>::\<close>, and the last four bytes in
  dotted decimal when the address embeds an IPv4 address (a leading run of six zero
  groups, or of five followed by \<open>ffff\<close>).
\<close>

fun digits_of :: "nat \<Rightarrow> nat \<Rightarrow> string" where
  "digits_of base n =
     (if base < 2 \<or> n < base then [''0123456789abcdef'' ! n]
      else digits_of base (n div base) @ [''0123456789abcdef'' ! (n mod base)])"

declare digits_of.simps [simp del]

text \<open>
  The scan for the best run of zero groups: \<open>cur\<close> and \<open>best\<close> are (base, length),
  \<open>None\<close> for the library's \<open>base = -1\<close>.
\<close>

definition better_run :: "(nat \<times> nat) option \<Rightarrow> (nat \<times> nat) option \<Rightarrow> (nat \<times> nat) option" where
  "better_run cur best =
     (case cur of
        None \<Rightarrow> best
      | Some (cb, cl) \<Rightarrow>
          (case best of None \<Rightarrow> cur | Some (bb, bl) \<Rightarrow> if cl > bl then cur else best))"

fun scan_runs :: "nat list \<Rightarrow> nat \<Rightarrow> (nat \<times> nat) option \<Rightarrow> (nat \<times> nat) option \<Rightarrow> (nat \<times> nat) option" where
  "scan_runs [] i cur best = better_run cur best"
| "scan_runs (w # ws) i cur best =
     (if w = 0
      then scan_runs ws (i + 1) (case cur of None \<Rightarrow> Some (i, 1) | Some (cb, cl) \<Rightarrow> Some (cb, cl + 1)) best
      else scan_runs ws (i + 1) None (better_run cur best))"

definition best_run :: "nat list \<Rightarrow> (nat \<times> nat) option" where
  "best_run words =
     (case scan_runs words 0 None None of
        None \<Rightarrow> None
      | Some (bb, bl) \<Rightarrow> if bl < 2 then None else Some (bb, bl))"

definition inet_ntop4 :: "u8 list \<Rightarrow> string" where
  "inet_ntop4 src =
     digits_of 10 (unat (src ! 0)) @ ''.'' @ digits_of 10 (unat (src ! 1)) @ ''.'' @
     digits_of 10 (unat (src ! 2)) @ ''.'' @ digits_of 10 (unat (src ! 3))"

text \<open>The rendering loop over the groups \<open>i, i + 1, ...\<close> that remain.\<close>

fun render_groups :: "u8 list \<Rightarrow> nat list \<Rightarrow> (nat \<times> nat) option \<Rightarrow> nat \<Rightarrow> nat list \<Rightarrow> string" where
  "render_groups src words best i [] = ''''"
| "render_groups src words best i (w # ws) =
     (if (case best of None \<Rightarrow> False | Some (bb, bl) \<Rightarrow> bb \<le> i \<and> i < bb + bl)
      then (if (case best of None \<Rightarrow> False | Some (bb, bl) \<Rightarrow> i = bb) then '':'' else '''') @
           render_groups src words best (i + 1) ws
      else (if i \<noteq> 0 then '':'' else '''') @
           (if i = 6 \<and> (case best of
                            None \<Rightarrow> False
                          | Some (bb, bl) \<Rightarrow> bb = 0 \<and> (bl = 6 \<or> (bl = 5 \<and> words ! 5 = 65535)))
            then inet_ntop4 (drop 12 src)
            else digits_of 16 w @ render_groups src words best (i + 1) ws))"

definition inet_ntop6 :: "u8 list \<Rightarrow> string" where
  "inet_ntop6 src =
     (let words = map (\<lambda>i. 256 * unat (src ! (2 * i)) + unat (src ! (2 * i + 1))) [0..<8];
          best = best_run words
      in render_groups src words best 0 words @
         (if (case best of None \<Rightarrow> False | Some (bb, bl) \<Rightarrow> bb + bl = 8) then '':'' else ''''))"

subsection \<open>The output tree\<close>

text \<open>
  \<^verbatim>\<open>boost::property_tree::ptree\<close> is a library type: a node holds a datum and an
  ordered list of (key, subtree) children in which a key may occur several times.
  \<^verbatim>\<open>put(key, v)\<close> on a key without separator sets the datum of the first child
  called \<open>key\<close> and appends a fresh child when there is none; \<^verbatim>\<open>add_child(key, t)\<close>
  always appends. The library renders a number put into the tree (also a
  \<^verbatim>\<open>uint8_t\<close>) in decimal; the embedding keeps the number.
\<close>

datatype pvalue = PEmpty | PString string | PNum nat

datatype ptree = PTree (pdata: pvalue) (children: "(string \<times> ptree) list")

abbreviation (input) empty_ptree :: ptree where
  "empty_ptree \<equiv> PTree PEmpty []"

fun put_child :: "string \<Rightarrow> pvalue \<Rightarrow> (string \<times> ptree) list \<Rightarrow> (string \<times> ptree) list" where
  "put_child k v [] = [(k, PTree v [])]"
| "put_child k v ((k', t) # cs) =
     (if k' = k then (k', PTree v (children t)) # cs else (k', t) # put_child k v cs)"

definition put :: "string \<Rightarrow> pvalue \<Rightarrow> ptree \<Rightarrow> ptree" where
  "put k v t = PTree (pdata t) (put_child k v (children t))"

definition add_child :: "string \<Rightarrow> ptree \<Rightarrow> ptree \<Rightarrow> ptree" where
  "add_child k sub t = PTree (pdata t) (children t @ [(k, sub)])"

text \<open>All children stored under a key, in order.\<close>

definition get_children :: "string \<Rightarrow> ptree \<Rightarrow> ptree list" where
  "get_children k t = map snd (filter (\<lambda>c. fst c = k) (children t))"

subsection \<open>Diagnostics\<close>

text \<open>
  One constructor for each \<^verbatim>\<open>SELF_DEBUG\<close> statement of the two decode functions,
  with the values it prints. The functions below return the statements reached, in
  order; whether the logger prints them depends on its debug flag, which the decoder
  never reads otherwise.
\<close>

datatype event =
    DbgL3ServiceTLV
  | DbgTLVSkipped u8
  | DbgSIDInformation
  | DbgSIDValue "u8 list"
  | DbgSIDFlags u8
  | DbgEndpointBehavior string
  | DbgSIDStructure
  | DbgStructureField string u8
  | DbgSubSubTLVSkipped u8
  | DbgTooMuchLoopSubTlv
  | DbgSubTLVSkipped u8
  | DbgTooMuchLoopTlv

subsection \<open>Wire structures\<close>

abbreviation (input) BGP_PREFIX_SID_TLV_TYPE_SRV6_L3_SERVICE_TLV :: u8 where
  "BGP_PREFIX_SID_TLV_TYPE_SRV6_L3_SERVICE_TLV \<equiv> 5"

abbreviation (input) SRV6_SID_INFORMATION_SUB_TLV :: u8 where
  "SRV6_SID_INFORMATION_SUB_TLV \<equiv> 1"

abbreviation (input) SRV6_SID_STRUCTURE_SUB_SUB_TLV :: u8 where
  "SRV6_SID_STRUCTURE_SUB_SUB_TLV \<equiv> 1"

text \<open>\<^verbatim>\<open>struct generic_tlv\<close>: the fields the decoder fills.\<close>

record generic_tlv =
  gt_type :: u8
  gt_len :: u16
  gt_reserved :: u8

record srv6_sid_structure_sub_sub_tlv =
  locator_block_length :: u8
  locator_node_length :: u8
  function_length :: u8
  argument_length :: u8
  transposition_length :: u8
  transposition_offset :: u8

record srv6_sid_information_sub_tlv =
  sid_value :: "u8 list"
  service_sid_flags :: u8
  endpoint_behavior :: u16
  sid_reserved :: u8

text \<open>
  The header reads that open every loop body:
  \<^verbatim>\<open>
  readData(&tlv.type, data, 1); data++;
  readData(&tlv.len, data, 2); data+=2;
  readData(&tlv.reserved, data, 1); data++;
  \<close>
  (the sub-TLV and sub-sub-TLV loops do the same on their own cursor).
\<close>

definition read_header :: "u8 list \<Rightarrow> int \<Rightarrow> error + generic_tlv" where
  "read_header buf data =
     (case readData buf data 1 True of
        Inl e \<Rightarrow> Inl e
      | Inr t \<Rightarrow>
          (case readData buf (data + 1) 2 True of
             Inl e \<Rightarrow> Inl e
           | Inr l \<Rightarrow>
               (case readData buf (data + 3) 1 True of
                  Inl e \<Rightarrow> Inl e
                | Inr r \<Rightarrow>
                    Inr \<lparr>gt_type = t ! 0, gt_len = uint16_of_field l, gt_reserved = r ! 0\<rparr>)))"

text \<open>\<open>n\<close> successive \<^verbatim>\<open>*p++\<close> reads.\<close>

definition deref_run :: "u8 list \<Rightarrow> int \<Rightarrow> nat \<Rightarrow> error + u8 list" where
  "deref_run buf p n =
     (if in_buf buf p n then Inr (map (\<lambda>i. buf ! (nat p + i)) [0..<n]) else Inl Overread)"

text \<open>
  What one execution of a loop body leaves behind: the loop's variables at the end of
  the body, or at its \<^verbatim>\<open>break\<close>, or a read outside the buffer.
\<close>

datatype 'a step = Continue 'a | Break 'a | Fault

subsection \<open>The sub-sub-TLV loop of \<^verbatim>\<open>parseSRv6L3ServiceTLV\<close>\<close>

text \<open>
  The body of \<^verbatim>\<open>while(subtlv_len>0)\<close> (lines 156 to 202). Its variables are
  \<^verbatim>\<open>subtlv_len\<close>, \<^verbatim>\<open>sub_data\<close>, \<^verbatim>\<open>subtlv_cnt\<close>, \<^verbatim>\<open>sub_pt\<close> and the
  enclosing loop's \<^verbatim>\<open>tlv_cnt\<close>, which the body increments too:
  \<^verbatim>\<open>
  sub_data += (subsubtlv.len-1);
  subtlv_len -= (subsubtlv.len+3);
  if(++subtlv_cnt>3){
      if(++tlv_cnt>3){
          SELF_DEBUG("%s: Too much loop in Sub-tlv", peer_addr.c_str());
          break;
      }
  }
  \<close>
\<close>

text \<open>
  \<^verbatim>\<open>case SRV6_SID_STRUCTURE_SUB_SUB_TLV\<close> (lines 164 to 187): six \<^verbatim>\<open>*subsub_data++\<close>
  reads into \<^verbatim>\<open>srv6_sid_information.sid_structure\<close>, six \<^verbatim>\<open>put\<close>s into a fresh
  \<^verbatim>\<open>subsub_pt\<close>, then \<^verbatim>\<open>sub_pt.add_child("sid_structure", subsub_pt)\<close>.
\<close>

definition sid_structure_tree :: "srv6_sid_structure_sub_sub_tlv \<Rightarrow> ptree" where
  "sid_structure_tree sid_structure =
     put ''transposition_offset'' (PNum (unat (transposition_offset sid_structure)))
    (put ''transposition_length'' (PNum (unat (transposition_length sid_structure)))
    (put ''argument_length'' (PNum (unat (argument_length sid_structure)))
    (put ''function_length'' (PNum (unat (function_length sid_structure)))
    (put ''locator_node_length'' (PNum (unat (locator_node_length sid_structure)))
    (put ''locator_block_length'' (PNum (unat (locator_block_length sid_structure)))
       empty_ptree)))))"

definition sid_structure_events :: "srv6_sid_structure_sub_sub_tlv \<Rightarrow> event list" where
  "sid_structure_events sid_structure =
     [DbgSIDStructure,
      DbgStructureField ''locator_block_length'' (locator_block_length sid_structure),
      DbgStructureField ''locator_node_length'' (locator_node_length sid_structure),
      DbgStructureField ''function_length'' (function_length sid_structure),
      DbgStructureField ''argument_length'' (argument_length sid_structure),
      DbgStructureField ''transposition_length'' (transposition_length sid_structure),
      DbgStructureField ''transposition_offset'' (transposition_offset sid_structure)]"

definition sid_structure_case :: "u8 list \<Rightarrow> int \<Rightarrow> ptree \<Rightarrow> (error + ptree) \<times> event list" where
  "sid_structure_case buf subsub_data sub_pt =
     (case deref_run buf subsub_data 6 of
        Inl e \<Rightarrow> (Inl e, [DbgSIDStructure])
      | Inr f \<Rightarrow>
          let sid_structure =
                \<lparr>locator_block_length = f ! 0, locator_node_length = f ! 1,
                 function_length = f ! 2, argument_length = f ! 3,
                 transposition_length = f ! 4, transposition_offset = f ! 5\<rparr>
          in (Inr (add_child ''sid_structure'' (sid_structure_tree sid_structure) sub_pt),
              sid_structure_events sid_structure))"

text \<open>The end of the body (lines 193 to 202), from the cursor \<open>subsub_data\<close> behind the header.\<close>

definition subsubtlv_next ::
  "generic_tlv \<Rightarrow> int \<Rightarrow> int \<Rightarrow> int \<Rightarrow> int \<Rightarrow> ptree \<Rightarrow> event list \<Rightarrow>
   (int \<times> int \<times> int \<times> int \<times> ptree) step \<times> event list" where
  "subsubtlv_next subsubtlv subtlv_len subsub_data subtlv_cnt tlv_cnt sub_pt evs =
     (let sub_data' = subsub_data + (uint (gt_len subsubtlv) - 1);
          subtlv_len' = subtlv_len - (uint (gt_len subsubtlv) + 3);
          subtlv_cnt' = subtlv_cnt + 1
      in if subtlv_cnt' > 3 then
           let tlv_cnt' = tlv_cnt + 1
           in if tlv_cnt' > 3
              then (Break (subtlv_len', sub_data', subtlv_cnt', tlv_cnt', sub_pt),
                    evs @ [DbgTooMuchLoopSubTlv])
              else (Continue (subtlv_len', sub_data', subtlv_cnt', tlv_cnt', sub_pt), evs)
         else (Continue (subtlv_len', sub_data', subtlv_cnt', tlv_cnt, sub_pt), evs))"

definition subsubtlv_body ::
  "u8 list \<Rightarrow> int \<Rightarrow> int \<Rightarrow> int \<Rightarrow> int \<Rightarrow> ptree \<Rightarrow>
   (int \<times> int \<times> int \<times> int \<times> ptree) step \<times> event list" where
  "subsubtlv_body buf subtlv_len sub_data subtlv_cnt tlv_cnt sub_pt =
     (case read_header buf sub_data of
        Inl e \<Rightarrow> (Fault, [])
      | Inr subsubtlv \<Rightarrow>
          let subsub_data = sub_data + 4 in
          (case (if gt_type subsubtlv = SRV6_SID_STRUCTURE_SUB_SUB_TLV
                 then sid_structure_case buf subsub_data sub_pt
                 else (Inr sub_pt, [DbgSubSubTLVSkipped (gt_type subsubtlv)])) of
             (Inl e, evs) \<Rightarrow> (Fault, evs)
           | (Inr sub_pt', evs) \<Rightarrow>
               subsubtlv_next subsubtlv subtlv_len subsub_data subtlv_cnt tlv_cnt sub_pt' evs))"

lemma subsubtlv_body_decreases:
  assumes "subsubtlv_body buf subtlv_len sub_data subtlv_cnt tlv_cnt sub_pt =
           (Continue (subtlv_len', sub_data', subtlv_cnt', tlv_cnt', sub_pt'), evs)"
  shows "subtlv_len' \<le> subtlv_len - 3"
  using assms unfolding subsubtlv_body_def subsubtlv_next_def Let_def
  by (auto split: sum.splits prod.splits if_splits)

text \<open>
  The loop returns \<^verbatim>\<open>tlv_cnt\<close> and \<^verbatim>\<open>sub_pt\<close> as it leaves them, with the
  diagnostics of all its iterations.
\<close>

function subsubtlv_loop ::
  "u8 list \<Rightarrow> int \<Rightarrow> int \<Rightarrow> int \<Rightarrow> int \<Rightarrow> ptree \<Rightarrow> (error + int \<times> ptree) \<times> event list" where
  "subsubtlv_loop buf subtlv_len sub_data subtlv_cnt tlv_cnt sub_pt =
     (if subtlv_len > 0 then
        (case subsubtlv_body buf subtlv_len sub_data subtlv_cnt tlv_cnt sub_pt of
           (Fault, evs) \<Rightarrow> (Inl Overread, evs)
         | (Break (subtlv_len', sub_data', subtlv_cnt', tlv_cnt', sub_pt'), evs) \<Rightarrow>
             (Inr (tlv_cnt', sub_pt'), evs)
         | (Continue (subtlv_len', sub_data', subtlv_cnt', tlv_cnt', sub_pt'), evs) \<Rightarrow>
             (case subsubtlv_loop buf subtlv_len' sub_data' subtlv_cnt' tlv_cnt' sub_pt' of
                (r, evs') \<Rightarrow> (r, evs @ evs')))
      else (Inr (tlv_cnt, sub_pt), []))"
  by pat_completeness auto
termination
proof (relation "measure (\<lambda>(buf, subtlv_len, sub_data, subtlv_cnt, tlv_cnt, sub_pt). nat subtlv_len)")
  show "wf (measure (\<lambda>(buf, subtlv_len, sub_data, subtlv_cnt, tlv_cnt, sub_pt). nat subtlv_len))"
    by simp
next
  fix buf :: "u8 list" and subtlv_len sub_data subtlv_cnt tlv_cnt :: int and sub_pt :: ptree
    and x :: "(int \<times> int \<times> int \<times> int \<times> ptree) step" and evs :: "event list"
    and st :: "int \<times> int \<times> int \<times> int \<times> ptree"
    and subtlv_len' :: int and r1 :: "int \<times> int \<times> int \<times> ptree"
    and sub_data' :: int and r2 :: "int \<times> int \<times> ptree"
    and subtlv_cnt' :: int and r3 :: "int \<times> ptree"
    and tlv_cnt' :: int and sub_pt' :: ptree
  assume pos: "0 < subtlv_len"
    and body: "(x, evs) = subsubtlv_body buf subtlv_len sub_data subtlv_cnt tlv_cnt sub_pt"
    and "x = Continue st" "(subtlv_len', r1) = st" "(sub_data', r2) = r1"
      "(subtlv_cnt', r3) = r2" "(tlv_cnt', sub_pt') = r3"
  then have "subsubtlv_body buf subtlv_len sub_data subtlv_cnt tlv_cnt sub_pt =
      (Continue (subtlv_len', sub_data', subtlv_cnt', tlv_cnt', sub_pt'), evs)"
    by simp
  from subsubtlv_body_decreases [OF this] pos
  show "((buf, subtlv_len', sub_data', subtlv_cnt', tlv_cnt', sub_pt'),
         (buf, subtlv_len, sub_data, subtlv_cnt, tlv_cnt, sub_pt))
        \<in> measure (\<lambda>(buf, subtlv_len, sub_data, subtlv_cnt, tlv_cnt, sub_pt). nat subtlv_len)"
    by simp
qed

declare subsubtlv_loop.simps [simp del]

lemma subsubtlv_body_tlv_cnt:
  assumes "subsubtlv_body buf subtlv_len sub_data subtlv_cnt tlv_cnt sub_pt = (x, evs)"
    and "x = Continue (subtlv_len', sub_data', subtlv_cnt', tlv_cnt', sub_pt') \<or>
         x = Break (subtlv_len', sub_data', subtlv_cnt', tlv_cnt', sub_pt')"
  shows "tlv_cnt \<le> tlv_cnt'"
  using assms unfolding subsubtlv_body_def subsubtlv_next_def Let_def
  by (auto split: sum.splits prod.splits if_splits)

lemma subsubtlv_loop_tlv_cnt:
  "subsubtlv_loop buf subtlv_len sub_data subtlv_cnt tlv_cnt sub_pt = (Inr (tlv_cnt', sub_pt'), evs)
   \<Longrightarrow> tlv_cnt \<le> tlv_cnt'"
proof (induction buf subtlv_len sub_data subtlv_cnt tlv_cnt sub_pt arbitrary: evs
    rule: subsubtlv_loop.induct)
  case (1 buf subtlv_len sub_data subtlv_cnt tlv_cnt sub_pt)
  note unfold = subsubtlv_loop.simps [of buf subtlv_len sub_data subtlv_cnt tlv_cnt sub_pt]
  show ?case
  proof (cases "subtlv_len > 0")
    case False
    with "1.prems" unfold show ?thesis by simp
  next
    case True
    obtain x evs0 where body: "subsubtlv_body buf subtlv_len sub_data subtlv_cnt tlv_cnt sub_pt = (x, evs0)"
      by (cases "subsubtlv_body buf subtlv_len sub_data subtlv_cnt tlv_cnt sub_pt")
    show ?thesis
    proof (cases x)
      case Fault
      with True body "1.prems" unfold show ?thesis by simp
    next
      case (Break st)
      obtain l d c t p where st: "st = (l, d, c, t, p)" by (cases st)
      from True body Break st "1.prems" unfold have "t = tlv_cnt'" by simp
      with subsubtlv_body_tlv_cnt [OF body] Break st show ?thesis by simp
    next
      case (Continue st)
      obtain l d c t p where st: "st = (l, d, c, t, p)" by (cases st)
      obtain r evs1 where rest: "subsubtlv_loop buf l d c t p = (r, evs1)"
        by (cases "subsubtlv_loop buf l d c t p")
      from True body Continue st rest "1.prems" unfold have r: "r = Inr (tlv_cnt', sub_pt')" by simp
      have "t \<le> tlv_cnt'"
        using "1.IH" [OF True body [symmetric] Continue st [symmetric] refl refl refl] rest r
        by simp
      moreover have "tlv_cnt \<le> t"
        using subsubtlv_body_tlv_cnt [OF body] Continue st by simp
      ultimately show ?thesis by simp
    qed
  qed
qed

subsection \<open>The sub-TLV loop of \<^verbatim>\<open>parseSRv6L3ServiceTLV\<close>\<close>

text \<open>
  The parameter \<open>inet_ntop\<close> is the rendering of the 16 bytes of an address.

  \<^verbatim>\<open>case SRV6_SID_INFORMATION_SUB_TLV\<close> (lines 121 to 206): the fixed fields
  (\<open>read_sid_information\<close>, lines 125 to 128), the four \<^verbatim>\<open>put\<close>s
  (\<open>sid_information_tree\<close>), the sub-sub-TLV loop started with \<^verbatim>\<open>subtlv_cnt = 0\<close> and
  \<^verbatim>\<open>subtlv_len = subtlv.len-21\<close>, then \<^verbatim>\<open>pt.add_child("sid_information", sub_pt)\<close>.
  It returns \<^verbatim>\<open>tlv_cnt\<close> and \<^verbatim>\<open>pt\<close>.
\<close>

definition read_sid_information :: "u8 list \<Rightarrow> int \<Rightarrow> error + srv6_sid_information_sub_tlv" where
  "read_sid_information buf sub_data =
     (case readData buf sub_data 16 False of
        Inl e \<Rightarrow> Inl e
      | Inr v \<Rightarrow>
          (case readData buf (sub_data + 16) 1 True of
             Inl e \<Rightarrow> Inl e
           | Inr fl \<Rightarrow>
               (case readData buf (sub_data + 17) 2 True of
                  Inl e \<Rightarrow> Inl e
                | Inr eb \<Rightarrow>
                    (case readData buf (sub_data + 19) 1 True of
                       Inl e \<Rightarrow> Inl e
                     | Inr rs \<Rightarrow>
                         Inr \<lparr>sid_value = v, service_sid_flags = fl ! 0,
                              endpoint_behavior = uint16_of_field eb, sid_reserved = rs ! 0\<rparr>))))"

definition sid_information_tree :: "(u8 list \<Rightarrow> string) \<Rightarrow> srv6_sid_information_sub_tlv \<Rightarrow> ptree" where
  "sid_information_tree inet_ntop srv6_sid_information =
     put ''endpoint_behavior''
         (PString (endpoint_behavior_codepoint_to_name (endpoint_behavior srv6_sid_information)))
    (put ''endpoint_behavior_codepoint'' (PNum (unat (endpoint_behavior srv6_sid_information)))
    (put ''service_sid_flags'' (PNum (unat (service_sid_flags srv6_sid_information)))
    (put ''sid_value'' (PString (inet_ntop (sid_value srv6_sid_information)))
       empty_ptree)))"

definition sid_information_events :: "srv6_sid_information_sub_tlv \<Rightarrow> event list" where
  "sid_information_events srv6_sid_information =
     [DbgSIDInformation,
      DbgSIDValue (sid_value srv6_sid_information),
      DbgSIDFlags (service_sid_flags srv6_sid_information),
      DbgEndpointBehavior (endpoint_behavior_codepoint_to_name (endpoint_behavior srv6_sid_information))]"

definition sid_information_case ::
  "(u8 list \<Rightarrow> string) \<Rightarrow> u8 list \<Rightarrow> generic_tlv \<Rightarrow> int \<Rightarrow> int \<Rightarrow> ptree \<Rightarrow>
   (error + int \<times> ptree) \<times> event list" where
  "sid_information_case inet_ntop buf subtlv sub_data tlv_cnt pt =
     (case read_sid_information buf sub_data of
        Inl e \<Rightarrow> (Inl e, [DbgSIDInformation])
      | Inr srv6_sid_information \<Rightarrow>
          let sub_pt = sid_information_tree inet_ntop srv6_sid_information;
              subtlv_len = uint (gt_len subtlv) - 21;
              evs = sid_information_events srv6_sid_information
          in (case subsubtlv_loop buf subtlv_len (sub_data + 20) 0 tlv_cnt sub_pt of
                (Inl e, evs') \<Rightarrow> (Inl e, evs @ evs')
              | (Inr (tlv_cnt', sub_pt'), evs') \<Rightarrow>
                  (Inr (tlv_cnt', add_child ''sid_information'' sub_pt' pt), evs @ evs')))"

text \<open>
  The body of \<^verbatim>\<open>while(tlv_len)\<close> (lines 109 to 219), which ends with
  \<^verbatim>\<open>
  data += (subtlv.len-1);
  tlv_len -= (subtlv.len+3);
  if(++tlv_cnt>3){
      SELF_DEBUG("%s: Too much loop in tlv", peer_addr.c_str());
      break;
  }
  \<close>
  (\<open>subtlv_next\<close>, from the cursor \<open>sub_data\<close> behind the header).
\<close>

definition subtlv_next ::
  "generic_tlv \<Rightarrow> int \<Rightarrow> int \<Rightarrow> int \<Rightarrow> ptree \<Rightarrow> event list \<Rightarrow>
   (int \<times> int \<times> int \<times> ptree) step \<times> event list" where
  "subtlv_next subtlv tlv_len sub_data tlv_cnt pt evs =
     (let data' = sub_data + (uint (gt_len subtlv) - 1);
          tlv_len' = tlv_len - (uint (gt_len subtlv) + 3);
          tlv_cnt' = tlv_cnt + 1
      in if tlv_cnt' > 3
         then (Break (tlv_len', data', tlv_cnt', pt), evs @ [DbgTooMuchLoopTlv])
         else (Continue (tlv_len', data', tlv_cnt', pt), evs))"

definition subtlv_body ::
  "(u8 list \<Rightarrow> string) \<Rightarrow> u8 list \<Rightarrow> int \<Rightarrow> int \<Rightarrow> int \<Rightarrow> ptree \<Rightarrow>
   (int \<times> int \<times> int \<times> ptree) step \<times> event list" where
  "subtlv_body inet_ntop buf tlv_len data tlv_cnt pt =
     (case read_header buf data of
        Inl e \<Rightarrow> (Fault, [])
      | Inr subtlv \<Rightarrow>
          let sub_data = data + 4 in
          (case (if gt_type subtlv = SRV6_SID_INFORMATION_SUB_TLV
                 then sid_information_case inet_ntop buf subtlv sub_data tlv_cnt pt
                 else (Inr (tlv_cnt, pt), [DbgSubTLVSkipped (gt_type subtlv)])) of
             (Inl e, evs) \<Rightarrow> (Fault, evs)
           | (Inr (tlv_cnt1, pt'), evs) \<Rightarrow> subtlv_next subtlv tlv_len sub_data tlv_cnt1 pt' evs))"

lemma sid_information_case_tlv_cnt:
  "sid_information_case inet_ntop buf subtlv sub_data tlv_cnt pt = (Inr (tlv_cnt', pt'), evs)
   \<Longrightarrow> tlv_cnt \<le> tlv_cnt'"
  unfolding sid_information_case_def Let_def
  by (auto split: sum.splits prod.splits dest: subsubtlv_loop_tlv_cnt)

lemma subtlv_body_tlv_cnt:
  assumes "subtlv_body inet_ntop buf tlv_len data tlv_cnt pt = (Continue (tlv_len', data', tlv_cnt', pt'), evs)"
  shows "tlv_cnt < tlv_cnt' \<and> tlv_cnt' \<le> 3"
  using assms unfolding subtlv_body_def subtlv_next_def Let_def
  by (auto split: sum.splits prod.splits if_splits dest: sid_information_case_tlv_cnt)

function subtlv_loop ::
  "(u8 list \<Rightarrow> string) \<Rightarrow> u8 list \<Rightarrow> int \<Rightarrow> int \<Rightarrow> int \<Rightarrow> ptree \<Rightarrow> (error + ptree) \<times> event list" where
  "subtlv_loop inet_ntop buf tlv_len data tlv_cnt pt =
     (if tlv_len \<noteq> 0 then
        (case subtlv_body inet_ntop buf tlv_len data tlv_cnt pt of
           (Fault, evs) \<Rightarrow> (Inl Overread, evs)
         | (Break (tlv_len', data', tlv_cnt', pt'), evs) \<Rightarrow> (Inr pt', evs)
         | (Continue (tlv_len', data', tlv_cnt', pt'), evs) \<Rightarrow>
             (case subtlv_loop inet_ntop buf tlv_len' data' tlv_cnt' pt' of
                (r, evs') \<Rightarrow> (r, evs @ evs')))
      else (Inr pt, []))"
  by pat_completeness auto
termination
proof (relation "measure (\<lambda>(inet_ntop, buf, tlv_len, data, tlv_cnt, pt). nat (4 - tlv_cnt))")
  show "wf (measure (\<lambda>(inet_ntop, buf, tlv_len, data, tlv_cnt, pt). nat (4 - tlv_cnt)))"
    by simp
next
  fix inet_ntop :: "u8 list \<Rightarrow> string" and buf :: "u8 list" and tlv_len data tlv_cnt :: int
    and pt :: ptree and x :: "(int \<times> int \<times> int \<times> ptree) step" and evs :: "event list"
    and st :: "int \<times> int \<times> int \<times> ptree"
    and tlv_len' :: int and r1 :: "int \<times> int \<times> ptree"
    and data' :: int and r2 :: "int \<times> ptree"
    and tlv_cnt' :: int and pt' :: ptree
  assume "(x, evs) = subtlv_body inet_ntop buf tlv_len data tlv_cnt pt"
    and "x = Continue st" "(tlv_len', r1) = st" "(data', r2) = r1" "(tlv_cnt', pt') = r2"
  then have "subtlv_body inet_ntop buf tlv_len data tlv_cnt pt =
      (Continue (tlv_len', data', tlv_cnt', pt'), evs)"
    by simp
  from subtlv_body_tlv_cnt [OF this]
  show "((inet_ntop, buf, tlv_len', data', tlv_cnt', pt'), (inet_ntop, buf, tlv_len, data, tlv_cnt, pt))
        \<in> measure (\<lambda>(inet_ntop, buf, tlv_len, data, tlv_cnt, pt). nat (4 - tlv_cnt))"
    by simp
qed

declare subtlv_loop.simps [simp del]

text \<open>
  \<^verbatim>\<open>boost::property_tree::ptree BGPPrefixSID::parseSRv6L3ServiceTLV(int tlv_len, u_char *data)\<close>:
  the loop from an empty \<^verbatim>\<open>pt\<close> and \<^verbatim>\<open>tlv_cnt = 0\<close>.
\<close>

definition parseSRv6L3ServiceTLV ::
  "(u8 list \<Rightarrow> string) \<Rightarrow> u8 list \<Rightarrow> int \<Rightarrow> int \<Rightarrow> (error + ptree) \<times> event list" where
  "parseSRv6L3ServiceTLV inet_ntop buf tlv_len data = subtlv_loop inet_ntop buf tlv_len data 0 empty_ptree"

subsection \<open>\<^verbatim>\<open>parseBGPPrefixSIDAttr\<close>\<close>

text \<open>
  The body of \<^verbatim>\<open>while(attr_len>0)\<close> (lines 77 to 98). The loop has no sibling
  counter and no \<^verbatim>\<open>break\<close>.
\<close>

definition attr_body ::
  "(u8 list \<Rightarrow> string) \<Rightarrow> u8 list \<Rightarrow> int \<Rightarrow> int \<Rightarrow> ptree \<Rightarrow>
   (int \<times> int \<times> ptree) step \<times> event list" where
  "attr_body inet_ntop buf attr_len data pt =
     (case read_header buf data of
        Inl e \<Rightarrow> (Fault, [])
      | Inr tlv \<Rightarrow>
          let data1 = data + 4;
              tlv_len = uint (gt_len tlv) - 1
          in (case (if gt_type tlv = BGP_PREFIX_SID_TLV_TYPE_SRV6_L3_SERVICE_TLV
                    then (case parseSRv6L3ServiceTLV inet_ntop buf tlv_len data1 of
                            (Inl e, evs) \<Rightarrow> (Inl e, DbgL3ServiceTLV # evs)
                          | (Inr sub_pt, evs) \<Rightarrow>
                              (Inr (add_child ''srv6_l3_service'' sub_pt pt), DbgL3ServiceTLV # evs))
                    else (Inr pt, [DbgTLVSkipped (gt_type tlv)])) of
                (Inl e, evs) \<Rightarrow> (Fault, evs)
              | (Inr pt', evs) \<Rightarrow>
                  (Continue (attr_len - (uint (gt_len tlv) + 3), data1 + (uint (gt_len tlv) - 1), pt'),
                   evs)))"

lemma attr_body_decreases:
  assumes "attr_body inet_ntop buf attr_len data pt = (Continue (attr_len', data', pt'), evs)"
  shows "attr_len' \<le> attr_len - 3"
  using assms unfolding attr_body_def Let_def
  by (auto split: sum.splits prod.splits if_splits)

function attr_loop ::
  "(u8 list \<Rightarrow> string) \<Rightarrow> u8 list \<Rightarrow> int \<Rightarrow> int \<Rightarrow> ptree \<Rightarrow> (error + ptree) \<times> event list" where
  "attr_loop inet_ntop buf attr_len data pt =
     (if attr_len > 0 then
        (case attr_body inet_ntop buf attr_len data pt of
           (Fault, evs) \<Rightarrow> (Inl Overread, evs)
         | (Break (attr_len', data', pt'), evs) \<Rightarrow> (Inr pt', evs)
         | (Continue (attr_len', data', pt'), evs) \<Rightarrow>
             (case attr_loop inet_ntop buf attr_len' data' pt' of
                (r, evs') \<Rightarrow> (r, evs @ evs')))
      else (Inr pt, []))"
  by pat_completeness auto
termination
proof (relation "measure (\<lambda>(inet_ntop, buf, attr_len, data, pt). nat attr_len)")
  show "wf (measure (\<lambda>(inet_ntop, buf, attr_len, data, pt). nat attr_len))"
    by simp
next
  fix inet_ntop :: "u8 list \<Rightarrow> string" and buf :: "u8 list" and attr_len data :: int
    and pt :: ptree and x :: "(int \<times> int \<times> ptree) step" and evs :: "event list"
    and st :: "int \<times> int \<times> ptree"
    and attr_len' :: int and r1 :: "int \<times> ptree" and data' :: int and pt' :: ptree
  assume pos: "0 < attr_len"
    and "(x, evs) = attr_body inet_ntop buf attr_len data pt"
    and "x = Continue st" "(attr_len', r1) = st" "(data', pt') = r1"
  then have "attr_body inet_ntop buf attr_len data pt = (Continue (attr_len', data', pt'), evs)"
    by simp
  from attr_body_decreases [OF this] pos
  show "((inet_ntop, buf, attr_len', data', pt'), (inet_ntop, buf, attr_len, data, pt))
        \<in> measure (\<lambda>(inet_ntop, buf, attr_len, data, pt). nat attr_len)"
    by simp
qed

declare attr_loop.simps [simp del]

text \<open>
  \<^verbatim>\<open>
  void BGPPrefixSID::parseBGPPrefixSIDAttr(int attr_len, u_char *data,
                                           UpdateMsg::parsed_update_data &parsed_data)
  \<close>
  starts from an empty \<^verbatim>\<open>pt\<close> and ends with \<^verbatim>\<open>parsed_data.attr_prefix_sid = pt\<close>.
  Of \<^verbatim>\<open>parsed_update_data\<close> only that member is named; the others are the record's
  extension.
\<close>

record parsed_update_data =
  attr_prefix_sid :: ptree

definition parseBGPPrefixSIDAttr ::
  "(u8 list \<Rightarrow> string) \<Rightarrow> u8 list \<Rightarrow> int \<Rightarrow> int \<Rightarrow> 'a parsed_update_data_scheme \<Rightarrow>
   (error + 'a parsed_update_data_scheme) \<times> event list" where
  "parseBGPPrefixSIDAttr inet_ntop buf attr_len data parsed_data =
     (case attr_loop inet_ntop buf attr_len data empty_ptree of
        (Inl e, evs) \<Rightarrow> (Inl e, evs)
      | (Inr pt, evs) \<Rightarrow> (Inr (parsed_data\<lparr>attr_prefix_sid := pt\<rparr>), evs))"

subsection \<open>Counting elements\<close>

text \<open>
  Every execution of a loop body that gets past its header reads reaches exactly one
  of the two \<^verbatim>\<open>SELF_DEBUG\<close> statements of its \<^verbatim>\<open>switch\<close>: the one of the
  recognized type or the one of \<^verbatim>\<open>default\<close>. The elements a level has processed
  are counted by these diagnostics.
\<close>

fun is_tlv_event :: "event \<Rightarrow> bool" where
  "is_tlv_event DbgL3ServiceTLV = True"
| "is_tlv_event (DbgTLVSkipped t) = True"
| "is_tlv_event e = False"

fun is_subtlv_event :: "event \<Rightarrow> bool" where
  "is_subtlv_event DbgSIDInformation = True"
| "is_subtlv_event (DbgSubTLVSkipped t) = True"
| "is_subtlv_event e = False"

fun is_subsubtlv_event :: "event \<Rightarrow> bool" where
  "is_subsubtlv_event DbgSIDStructure = True"
| "is_subsubtlv_event (DbgSubSubTLVSkipped t) = True"
| "is_subsubtlv_event e = False"

definition tlvs_processed :: "event list \<Rightarrow> nat" where
  "tlvs_processed evs = length (filter is_tlv_event evs)"

definition subtlvs_processed :: "event list \<Rightarrow> nat" where
  "subtlvs_processed evs = length (filter is_subtlv_event evs)"

definition subsubtlvs_processed :: "event list \<Rightarrow> nat" where
  "subsubtlvs_processed evs = length (filter is_subsubtlv_event evs)"

subsection \<open>Well-formed input\<close>

text \<open>
  The decoder has no encoder beside it. To speak about well-formed attributes, the
  wire form of one TLV as the decoder expects it: type, the 16-bit length in network
  order, the reserved byte and the value, where the length counts the reserved byte
  and the value.
\<close>

definition wire_tlv :: "u8 \<times> u8 \<times> u8 list \<Rightarrow> u8 list" where
  "wire_tlv t =
     (case t of (ty, rsv, val) \<Rightarrow>
        [ty, word_of_nat ((length val + 1) div 256), word_of_nat ((length val + 1) mod 256), rsv] @ val)"

section \<open>Properties\<close>

subsection \<open>Reading bytes\<close>

lemma readData_verbatim:
  "in_buf buf data sz \<Longrightarrow> readData buf data sz False = Inr (take sz (drop (nat data) buf))"
  unfolding readData_def in_buf_def
  by (auto intro!: nth_equalityI simp: nat_add_distrib)

lemma readData_reversed:
  "in_buf buf data sz \<Longrightarrow> readData buf data sz True = Inr (rev (take sz (drop (nat data) buf)))"
  unfolding readData_def in_buf_def
  by (auto intro!: nth_equalityI simp: rev_nth nat_add_distrib rev_map[symmetric] simp del: rev_map)

lemma readData_fault: "\<not> in_buf buf data sz \<Longrightarrow> readData buf data sz h = Inl Overread"
  by (simp add: readData_def)

lemma in_buf_part:
  "in_buf buf data n \<Longrightarrow> 0 \<le> k \<Longrightarrow> k + int m \<le> int n \<Longrightarrow> in_buf buf (data + k) m"
  unfolding in_buf_def by auto

lemma error_eq [simp]: "(e :: error) = e'"
  by (cases e; cases e') simp

lemma readData_one:
  assumes "in_buf buf data (Suc 0)"
  shows "readData buf data (Suc 0) h = Inr [buf ! nat data]"
  using assms unfolding readData_def by (cases h) simp_all

lemma readData_two_reversed:
  assumes "in_buf buf data 2"
  shows "readData buf data 2 True = Inr [buf ! (nat data + 1), buf ! nat data]"
proof -
  have "rev [0..<2] = [1, 0::nat]"
    by (simp add: numeral_2_eq_2)
  with assms show ?thesis
    unfolding readData_def by simp
qed

lemma unat_u16_of_nat: "n < 65536 \<Longrightarrow> unat (word_of_nat n :: u16) = n"
  by (simp add: unat_of_nat)

lemma unat_uint16_of_field_pair:
  "unat (uint16_of_field [lo, hi]) = unat lo + 256 * unat hi"
proof -
  have "unat lo < 256" "unat hi < 256"
    using unsigned_less [of lo, where 'a = nat] unsigned_less [of hi, where 'a = nat] by simp_all
  then have "unat lo + 256 * unat hi < 65536"
    by linarith
  from unat_u16_of_nat [OF this] show ?thesis
    unfolding uint16_of_field_def by (simp only: nth_Cons_0 nth_Cons_Suc One_nat_def)
qed

lemma uint16_of_field_pair:
  "uint (uint16_of_field [lo, hi]) = uint lo + 256 * uint hi"
  using unat_uint16_of_field_pair [of lo hi] by (simp only: uint_nat)

text \<open>The value of a big-endian 16-bit field at \<open>data\<close>.\<close>

definition be16 :: "u8 list \<Rightarrow> int \<Rightarrow> u16" where
  "be16 buf data = uint16_of_field [buf ! (nat data + 1), buf ! nat data]"

lemma uint_be16: "uint (be16 buf data) = 256 * uint (buf ! nat data) + uint (buf ! (nat data + 1))"
  by (simp add: be16_def uint16_of_field_pair)

lemma read_header_in_buf:
  assumes "in_buf buf data 4"
  shows "read_header buf data =
         Inr \<lparr>gt_type = buf ! nat data, gt_len = be16 buf (data + 1), gt_reserved = buf ! nat (data + 3)\<rparr>"
proof -
  from assms have nonneg: "0 \<le> data"
    by (simp add: in_buf_def)
  have "in_buf buf data 1" "in_buf buf (data + 1) 2" "in_buf buf (data + 3) 1"
    using in_buf_part [OF assms, of 0 1] in_buf_part [OF assms, of 1 2] in_buf_part [OF assms, of 3 1]
    by simp_all
  then show ?thesis
    unfolding read_header_def by (simp add: readData_one readData_two_reversed be16_def)
qed

lemma read_header_fault:
  assumes "\<not> in_buf buf data 4"
  shows "read_header buf data = Inl Overread"
proof -
  have "\<not> in_buf buf data 1 \<or> \<not> in_buf buf (data + 1) 2 \<or> \<not> in_buf buf (data + 3) 1"
    using assms unfolding in_buf_def by auto
  then show ?thesis
    unfolding read_header_def by (auto simp: readData_fault split: sum.splits)
qed

lemma read_sid_information_in_buf:
  assumes "in_buf buf sub_data 20"
  shows "read_sid_information buf sub_data =
         Inr \<lparr>sid_value = take 16 (drop (nat sub_data) buf),
              service_sid_flags = buf ! nat (sub_data + 16),
              endpoint_behavior = be16 buf (sub_data + 17),
              sid_reserved = buf ! nat (sub_data + 19)\<rparr>"
proof -
  have "in_buf buf sub_data 16" "in_buf buf (sub_data + 16) 1" "in_buf buf (sub_data + 17) 2"
    "in_buf buf (sub_data + 19) 1"
    using in_buf_part [OF assms, of 0 16] in_buf_part [OF assms, of 16 1]
      in_buf_part [OF assms, of 17 2] in_buf_part [OF assms, of 19 1]
    by simp_all
  then show ?thesis
    unfolding read_sid_information_def
    by (simp add: readData_one readData_two_reversed readData_verbatim be16_def)
qed

lemma read_sid_information_fault:
  assumes "\<not> in_buf buf sub_data 20"
  shows "read_sid_information buf sub_data = Inl Overread"
proof -
  have "\<not> in_buf buf sub_data 16 \<or> \<not> in_buf buf (sub_data + 16) 1 \<or>
        \<not> in_buf buf (sub_data + 17) 2 \<or> \<not> in_buf buf (sub_data + 19) 1"
    using assms unfolding in_buf_def by auto
  then show ?thesis
    unfolding read_sid_information_def by (auto simp: readData_fault split: sum.splits)
qed

text \<open>
  Claim C7. With \<open>host_byte_order\<close> true \<open>readData\<close> writes the source bytes in
  reversed order, \<open>field[j] = data[size - 1 - j]\<close> for every \<open>j < size\<close>, which for
  size 1 is the verbatim copy; with \<open>host_byte_order\<close> false it copies the bytes in
  order. In the SID-Information record the 16-byte SID value is read without reversal
  (it is the 16 buffer bytes as they stand) while the 2-byte length of a header and the
  2-byte endpoint behavior are read reversed: on the little-endian host their value is
  the big-endian number on the wire.
\<close>

theorem readData_byte_order:
  assumes "in_buf buf data sz"
  shows "(\<exists>field. readData buf data sz True = Inr field \<and> length field = sz \<and>
            (\<forall>j < sz. field ! j = buf ! (nat data + (sz - 1 - j)))) \<and>
         (\<exists>field. readData buf data sz False = Inr field \<and> length field = sz \<and>
            (\<forall>j < sz. field ! j = buf ! (nat data + j))) \<and>
         (sz = 1 \<longrightarrow> readData buf data sz True = readData buf data sz False) \<and>
         (in_buf buf data 20 \<longrightarrow>
            (\<exists>s. read_sid_information buf data = Inr s \<and>
                 sid_value s = take 16 (drop (nat data) buf) \<and>
                 uint (endpoint_behavior s) =
                   256 * uint (buf ! nat (data + 17)) + uint (buf ! nat (data + 18)))) \<and>
         (in_buf buf data 4 \<longrightarrow>
            (\<exists>tlv. read_header buf data = Inr tlv \<and>
                 uint (gt_len tlv) = 256 * uint (buf ! nat (data + 1)) + uint (buf ! nat (data + 2))))"
proof (intro conjI impI)
  show "\<exists>field. readData buf data sz True = Inr field \<and> length field = sz \<and>
            (\<forall>j < sz. field ! j = buf ! (nat data + (sz - 1 - j)))"
    using assms unfolding readData_def by (simp add: rev_nth)
  show "\<exists>field. readData buf data sz False = Inr field \<and> length field = sz \<and>
            (\<forall>j < sz. field ! j = buf ! (nat data + j))"
    using assms unfolding readData_def by simp
  show "readData buf data sz True = readData buf data sz False" if "sz = 1"
    using that unfolding readData_def by simp
next
  assume b: "in_buf buf data 20"
  then have "0 \<le> data"
    by (simp add: in_buf_def)
  then have "nat (data + 17) + 1 = nat (data + 18)"
    by simp
  then show "\<exists>s. read_sid_information buf data = Inr s \<and>
                 sid_value s = take 16 (drop (nat data) buf) \<and>
                 uint (endpoint_behavior s) =
                   256 * uint (buf ! nat (data + 17)) + uint (buf ! nat (data + 18))"
    by (simp add: read_sid_information_in_buf [OF b] uint_be16)
next
  assume b: "in_buf buf data 4"
  then have "0 \<le> data"
    by (simp add: in_buf_def)
  then have "nat (data + 1) + 1 = nat (data + 2)"
    by simp
  then show "\<exists>tlv. read_header buf data = Inr tlv \<and>
                 uint (gt_len tlv) = 256 * uint (buf ! nat (data + 1)) + uint (buf ! nat (data + 2))"
    by (simp add: read_header_in_buf [OF b] uint_be16)
qed

theorem readData_byte_order_witness:
  "in_buf [0x20, 0x01, 0x0d, 0xb8, 0, 0, 0, 0, 0, 0, 0, 0, 0, 0, 0, 1, 0, 0, 18, 0] 0 2 \<and>
   readData [0x20, 0x01, 0x0d, 0xb8, 0, 0, 0, 0, 0, 0, 0, 0, 0, 0, 0, 1, 0, 0, 18, 0] 0 2 True
     = Inr [0x01, 0x20] \<and>
   readData [0x20, 0x01, 0x0d, 0xb8, 0, 0, 0, 0, 0, 0, 0, 0, 0, 0, 0, 1, 0, 0, 18, 0] 0 2 False
     = Inr [0x20, 0x01] \<and>
   (\<exists>s. read_sid_information
          [0x20, 0x01, 0x0d, 0xb8, 0, 0, 0, 0, 0, 0, 0, 0, 0, 0, 0, 1, 0, 0, 18, 0] 0 = Inr s \<and>
        sid_value s = [0x20, 0x01, 0x0d, 0xb8, 0, 0, 0, 0, 0, 0, 0, 0, 0, 0, 0, 1] \<and>
        uint (endpoint_behavior s) = 18) \<and>
   (\<exists>tlv. read_header
          [0x20, 0x01, 0x0d, 0xb8, 0, 0, 0, 0, 0, 0, 0, 0, 0, 0, 0, 1, 0, 0, 18, 0] 0 = Inr tlv \<and>
        uint (gt_len tlv) = 269)"
proof -
  let ?buf = "[0x20, 0x01, 0x0d, 0xb8, 0, 0, 0, 0, 0, 0, 0, 0, 0, 0, 0, 1, 0, 0, 18, 0] :: u8 list"
  have h: "in_buf ?buf 0 2"
    by (simp add: in_buf_def)
  have h20: "in_buf ?buf 0 20" and h4: "in_buf ?buf 0 4"
    by (simp_all add: in_buf_def)
  have two: "readData ?buf 0 2 True = Inr [0x01, 0x20]" "readData ?buf 0 2 False = Inr [0x20, 0x01]"
    by (simp_all add: readData_two_reversed [OF h] readData_verbatim [OF h])
  have vals: "nat (0 + 17) = 17" "nat (0 + 18) = 18" "nat (0 + 1) = 1" "nat (0 + 2) = 2"
    by simp_all
  from readData_byte_order [OF h] h20 obtain s where
    s: "read_sid_information ?buf 0 = Inr s" "sid_value s = take 16 (drop (nat 0) ?buf)"
      "uint (endpoint_behavior s) = 256 * uint (?buf ! nat (0 + 17)) + uint (?buf ! nat (0 + 18))"
    by blast
  from readData_byte_order [OF h] h4 obtain tlv where
    tlv: "read_header ?buf 0 = Inr tlv"
      "uint (gt_len tlv) = 256 * uint (?buf ! nat (0 + 1)) + uint (?buf ! nat (0 + 2))"
    by blast
  have "sid_value s = [0x20, 0x01, 0x0d, 0xb8, 0, 0, 0, 0, 0, 0, 0, 0, 0, 0, 0, 1]"
    using s(2) by simp
  moreover have "uint (endpoint_behavior s) = 18"
    unfolding s(3) vals by simp
  moreover have "uint (gt_len tlv) = 269"
    unfolding tlv(2) vals by simp
  ultimately show ?thesis
    using h two s(1) tlv(1) by blast
qed

subsection \<open>The endpoint-behavior table\<close>

text \<open>The labels of the switch are pairwise distinct.\<close>

lemma endpoint_behavior_table_distinct: "distinct (map fst endpoint_behavior_table)"
  unfolding endpoint_behavior_table_def by simp

lemma endpoint_behavior_table_keys_all:
  "list_all (\<lambda>p. fst p \<le> 157 \<or> fst p = 32767 \<or> fst p = 65535) endpoint_behavior_table"
  unfolding endpoint_behavior_table_def by simp

lemma endpoint_behavior_table_keys:
  "k \<in> fst ` set endpoint_behavior_table \<Longrightarrow> k \<le> 157 \<or> k = 32767 \<or> k = 65535"
  using endpoint_behavior_table_keys_all unfolding list_all_iff by auto

lemma endpoint_behavior_unlisted:
  "k \<notin> fst ` set endpoint_behavior_table \<Longrightarrow> map_of endpoint_behavior_table k = None"
  by (simp add: map_of_eq_None_iff)

lemma endpoint_behavior_ranges_unlisted:
  assumes "32768 \<le> k" "k \<le> 65534"
  shows "map_of endpoint_behavior_table k = None"
proof (rule endpoint_behavior_unlisted, rule notI)
  assume "k \<in> fst ` set endpoint_behavior_table"
  from endpoint_behavior_table_keys [OF this] assms show False
    by linarith
qed

text \<open>
  Claim C4. \<open>endpoint_behavior_codepoint_to_name\<close> is a total function of the 16-bit
  code: code 1 is \<open>End\<close>, code 20 is \<open>End.DT46\<close>, every code from 32768 to 34815
  (33000 for one) is \<open>Reserved for Private Use\<close>, every code from 34816 to 65534
  (40000 for one) is \<open>Reserved\<close>, and every other code that is not a label of the
  switch (9999 for one) is \<open>Unassigned\<close>. Every result is a name of the table or one
  of these three.
\<close>

theorem endpoint_behavior_codepoint_to_name_cases:
  "endpoint_behavior_codepoint_to_name 1 = ''End'' \<and>
   endpoint_behavior_codepoint_to_name 20 = ''End.DT46'' \<and>
   (32768 \<le> unat code \<and> unat code \<le> 34815 \<longrightarrow>
      endpoint_behavior_codepoint_to_name code = ''Reserved for Private Use'') \<and>
   (34816 \<le> unat code \<and> unat code \<le> 65534 \<longrightarrow>
      endpoint_behavior_codepoint_to_name code = ''Reserved'') \<and>
   (unat code \<notin> fst ` set endpoint_behavior_table \<and> unat code < 32768 \<longrightarrow>
      endpoint_behavior_codepoint_to_name code = ''Unassigned'') \<and>
   endpoint_behavior_codepoint_to_name code \<in>
     snd ` set endpoint_behavior_table \<union> {''Reserved for Private Use'', ''Reserved'', ''Unassigned''}"
proof (intro conjI impI)
  show "endpoint_behavior_codepoint_to_name 1 = ''End''"
    by (simp add: endpoint_behavior_codepoint_to_name_def endpoint_behavior_table_def)
  show "endpoint_behavior_codepoint_to_name 20 = ''End.DT46''"
    by (simp add: endpoint_behavior_codepoint_to_name_def endpoint_behavior_table_def)
  show "endpoint_behavior_codepoint_to_name code = ''Reserved for Private Use''"
    if "32768 \<le> unat code \<and> unat code \<le> 34815"
    using that endpoint_behavior_ranges_unlisted [of "unat code"]
    by (simp add: endpoint_behavior_codepoint_to_name_def)
  show "endpoint_behavior_codepoint_to_name code = ''Reserved''"
    if "34816 \<le> unat code \<and> unat code \<le> 65534"
    using that endpoint_behavior_ranges_unlisted [of "unat code"]
    by (simp add: endpoint_behavior_codepoint_to_name_def)
  show "endpoint_behavior_codepoint_to_name code = ''Unassigned''"
    if "unat code \<notin> fst ` set endpoint_behavior_table \<and> unat code < 32768"
    using that endpoint_behavior_unlisted [of "unat code"]
    by (simp add: endpoint_behavior_codepoint_to_name_def)
  show "endpoint_behavior_codepoint_to_name code \<in>
     snd ` set endpoint_behavior_table \<union> {''Reserved for Private Use'', ''Reserved'', ''Unassigned''}"
  proof (cases "map_of endpoint_behavior_table (unat code)")
    case None
    then show ?thesis
      by (simp add: endpoint_behavior_codepoint_to_name_def)
  next
    case (Some name)
    from map_of_SomeD [OF this] have "name \<in> snd ` set endpoint_behavior_table"
      by force
    with Some show ?thesis
      by (simp add: endpoint_behavior_codepoint_to_name_def)
  qed
qed

theorem endpoint_behavior_codepoint_to_name_cases_witness:
  "endpoint_behavior_codepoint_to_name 33000 = ''Reserved for Private Use'' \<and>
   endpoint_behavior_codepoint_to_name 40000 = ''Reserved'' \<and>
   endpoint_behavior_codepoint_to_name 9999 = ''Unassigned''"
proof -
  have "9999 \<notin> fst ` set endpoint_behavior_table"
    using endpoint_behavior_table_keys [of 9999] by auto
  then show ?thesis
    using endpoint_behavior_codepoint_to_name_cases [of 33000]
      endpoint_behavior_codepoint_to_name_cases [of 40000]
      endpoint_behavior_codepoint_to_name_cases [of 9999]
    by simp
qed

subsection \<open>Unfolding the loops\<close>

lemma attr_loop_stop: "attr_len \<le> 0 \<Longrightarrow> attr_loop inet_ntop buf attr_len data pt = (Inr pt, [])"
  by (simp add: attr_loop.simps)

lemma attr_loop_fault:
  "0 < attr_len \<Longrightarrow> attr_body inet_ntop buf attr_len data pt = (Fault, evs) \<Longrightarrow>
   attr_loop inet_ntop buf attr_len data pt = (Inl Overread, evs)"
  by (simp add: attr_loop.simps [of inet_ntop buf attr_len data pt])

lemma attr_loop_continue:
  "0 < attr_len \<Longrightarrow>
   attr_body inet_ntop buf attr_len data pt = (Continue (attr_len', data', pt'), evs) \<Longrightarrow>
   attr_loop inet_ntop buf attr_len data pt =
     (fst (attr_loop inet_ntop buf attr_len' data' pt'),
      evs @ snd (attr_loop inet_ntop buf attr_len' data' pt'))"
  by (simp add: attr_loop.simps [of inet_ntop buf attr_len data pt] split: prod.splits)

lemma attr_body_never_breaks:
  "attr_body inet_ntop buf attr_len data pt \<noteq> (Break st, evs)"
  unfolding attr_body_def Let_def by (auto split: sum.splits prod.splits if_splits)

lemma subtlv_loop_stop: "subtlv_loop inet_ntop buf 0 data tlv_cnt pt = (Inr pt, [])"
  by (simp add: subtlv_loop.simps)

lemma subtlv_loop_fault:
  "tlv_len \<noteq> 0 \<Longrightarrow> subtlv_body inet_ntop buf tlv_len data tlv_cnt pt = (Fault, evs) \<Longrightarrow>
   subtlv_loop inet_ntop buf tlv_len data tlv_cnt pt = (Inl Overread, evs)"
  by (simp add: subtlv_loop.simps [of inet_ntop buf tlv_len data tlv_cnt pt])

lemma subtlv_loop_break:
  "tlv_len \<noteq> 0 \<Longrightarrow>
   subtlv_body inet_ntop buf tlv_len data tlv_cnt pt = (Break (tlv_len', data', tlv_cnt', pt'), evs) \<Longrightarrow>
   subtlv_loop inet_ntop buf tlv_len data tlv_cnt pt = (Inr pt', evs)"
  by (simp add: subtlv_loop.simps [of inet_ntop buf tlv_len data tlv_cnt pt])

lemma subtlv_loop_continue:
  "tlv_len \<noteq> 0 \<Longrightarrow>
   subtlv_body inet_ntop buf tlv_len data tlv_cnt pt = (Continue (tlv_len', data', tlv_cnt', pt'), evs) \<Longrightarrow>
   subtlv_loop inet_ntop buf tlv_len data tlv_cnt pt =
     (fst (subtlv_loop inet_ntop buf tlv_len' data' tlv_cnt' pt'),
      evs @ snd (subtlv_loop inet_ntop buf tlv_len' data' tlv_cnt' pt'))"
  by (simp add: subtlv_loop.simps [of inet_ntop buf tlv_len data tlv_cnt pt] split: prod.splits)

lemma subsubtlv_loop_stop:
  "subtlv_len \<le> 0 \<Longrightarrow>
   subsubtlv_loop buf subtlv_len sub_data subtlv_cnt tlv_cnt sub_pt = (Inr (tlv_cnt, sub_pt), [])"
  by (simp add: subsubtlv_loop.simps)

lemma subsubtlv_loop_fault:
  "0 < subtlv_len \<Longrightarrow>
   subsubtlv_body buf subtlv_len sub_data subtlv_cnt tlv_cnt sub_pt = (Fault, evs) \<Longrightarrow>
   subsubtlv_loop buf subtlv_len sub_data subtlv_cnt tlv_cnt sub_pt = (Inl Overread, evs)"
  by (simp add: subsubtlv_loop.simps [of buf subtlv_len sub_data subtlv_cnt tlv_cnt sub_pt])

lemma subsubtlv_loop_break:
  "0 < subtlv_len \<Longrightarrow>
   subsubtlv_body buf subtlv_len sub_data subtlv_cnt tlv_cnt sub_pt =
     (Break (subtlv_len', sub_data', subtlv_cnt', tlv_cnt', sub_pt'), evs) \<Longrightarrow>
   subsubtlv_loop buf subtlv_len sub_data subtlv_cnt tlv_cnt sub_pt = (Inr (tlv_cnt', sub_pt'), evs)"
  by (simp add: subsubtlv_loop.simps [of buf subtlv_len sub_data subtlv_cnt tlv_cnt sub_pt])

lemma subsubtlv_loop_continue:
  "0 < subtlv_len \<Longrightarrow>
   subsubtlv_body buf subtlv_len sub_data subtlv_cnt tlv_cnt sub_pt =
     (Continue (subtlv_len', sub_data', subtlv_cnt', tlv_cnt', sub_pt'), evs) \<Longrightarrow>
   subsubtlv_loop buf subtlv_len sub_data subtlv_cnt tlv_cnt sub_pt =
     (fst (subsubtlv_loop buf subtlv_len' sub_data' subtlv_cnt' tlv_cnt' sub_pt'),
      evs @ snd (subsubtlv_loop buf subtlv_len' sub_data' subtlv_cnt' tlv_cnt' sub_pt'))"
  by (simp add: subsubtlv_loop.simps [of buf subtlv_len sub_data subtlv_cnt tlv_cnt sub_pt]
      split: prod.splits)

subsection \<open>The loop bodies on readable input\<close>


text \<open>The top-level body on a TLV of another type than 5.\<close>

lemma attr_body_skip:
  assumes "in_buf buf data 4" and "buf ! nat data \<noteq> 5"
  shows "attr_body inet_ntop buf attr_len data pt =
         (Continue (attr_len - (uint (be16 buf (data + 1)) + 3),
                    data + 4 + (uint (be16 buf (data + 1)) - 1), pt),
          [DbgTLVSkipped (buf ! nat data)])"
  using assms(2) unfolding attr_body_def Let_def read_header_in_buf [OF assms(1)] by simp

text \<open>The top-level body on a TLV of type 5.\<close>

lemma attr_body_l3_service:
  assumes "in_buf buf data 4" and "buf ! nat data = 5"
  shows "attr_body inet_ntop buf attr_len data pt =
         (case parseSRv6L3ServiceTLV inet_ntop buf (uint (be16 buf (data + 1)) - 1) (data + 4) of
            (Inl e, evs) \<Rightarrow> (Fault, DbgL3ServiceTLV # evs)
          | (Inr sub_pt, evs) \<Rightarrow>
              (Continue (attr_len - (uint (be16 buf (data + 1)) + 3),
                         data + 4 + (uint (be16 buf (data + 1)) - 1),
                         add_child ''srv6_l3_service'' sub_pt pt),
               DbgL3ServiceTLV # evs))"
  using assms(2) unfolding attr_body_def Let_def read_header_in_buf [OF assms(1)]
  by (simp split: prod.splits sum.splits)

lemma attr_body_fault:
  assumes "\<not> in_buf buf data 4"
  shows "attr_body inet_ntop buf attr_len data pt = (Fault, [])"
  unfolding attr_body_def read_header_fault [OF assms] by simp

subsection \<open>A TLV of type 5 with an empty value\<close>

lemma parseSRv6L3ServiceTLV_empty:
  "parseSRv6L3ServiceTLV inet_ntop buf 0 data = (Inr (PTree PEmpty []), [])"
  by (simp add: parseSRv6L3ServiceTLV_def subtlv_loop_stop)

lemma attr_loop_single_empty_l3:
  "attr_loop inet_ntop [5, 0, 1, 0] 4 0 (PTree PEmpty []) =
   (Inr (PTree PEmpty [(''srv6_l3_service'', PTree PEmpty [])]), [DbgL3ServiceTLV])"
proof -
  let ?buf = "[5, 0, 1, 0] :: u8 list"
  have b: "in_buf ?buf 0 4"
    by (simp add: in_buf_def)
  have len: "uint (be16 ?buf 1) = 1"
    by (simp add: uint_be16)
  have "attr_body inet_ntop ?buf 4 0 (PTree PEmpty []) =
        (Continue (0, 4, PTree PEmpty [(''srv6_l3_service'', PTree PEmpty [])]), [DbgL3ServiceTLV])"
    using attr_body_l3_service [OF b, of inet_ntop 4 "PTree PEmpty []"]
    by (simp add: len parseSRv6L3ServiceTLV_empty add_child_def)
  from attr_loop_continue [OF _ this] show ?thesis
    by (simp add: attr_loop_stop)
qed

subsection \<open>The example address\<close>

lemma upt_8: "[0..<8] = [0, 1, 2, 3, 4, 5, 6, 7]"
  by (simp add: upt_rec)

lemma hex_2001: "digits_of 16 8193 = ''2001''"
  by (simp add: digits_of.simps)

lemma hex_db8: "digits_of 16 3512 = ''db8''"
  by (simp add: digits_of.simps)

lemma hex_1: "digits_of 16 (Suc 0) = ''1''"
  by (simp add: digits_of.simps)

lemma inet_ntop6_example:
  "inet_ntop6 [0x20, 0x01, 0x0d, 0xb8, 0, 0, 0, 0, 0, 0, 0, 0, 0, 0, 0, 1] = ''2001:db8::1''"
  unfolding inet_ntop6_def upt_8 Let_def
  by (simp add: best_run_def better_run_def hex_2001 hex_db8 hex_1)

text \<open>The sub-sub-TLV body on readable input.\<close>

lemma subsubtlv_body_fault:
  assumes "\<not> in_buf buf sub_data 4"
  shows "subsubtlv_body buf subtlv_len sub_data subtlv_cnt tlv_cnt sub_pt = (Fault, [])"
  unfolding subsubtlv_body_def read_header_fault [OF assms] by simp

lemma subsubtlv_body_skip:
  assumes "in_buf buf sub_data 4" and "buf ! nat sub_data \<noteq> 1"
  shows "subsubtlv_body buf subtlv_len sub_data subtlv_cnt tlv_cnt sub_pt =
         subsubtlv_next
           \<lparr>gt_type = buf ! nat sub_data, gt_len = be16 buf (sub_data + 1),
            gt_reserved = buf ! nat (sub_data + 3)\<rparr>
           subtlv_len (sub_data + 4) subtlv_cnt tlv_cnt sub_pt
           [DbgSubSubTLVSkipped (buf ! nat sub_data)]"
  using assms(2) unfolding subsubtlv_body_def Let_def read_header_in_buf [OF assms(1)] by simp





lemma subtlv_body_skip:
  assumes "in_buf buf data 4" and "buf ! nat data \<noteq> 1"
  shows "subtlv_body inet_ntop buf tlv_len data tlv_cnt pt =
         subtlv_next
           \<lparr>gt_type = buf ! nat data, gt_len = be16 buf (data + 1), gt_reserved = buf ! nat (data + 3)\<rparr>
           tlv_len (data + 4) tlv_cnt pt [DbgSubTLVSkipped (buf ! nat data)]"
  using assms(2) unfolding subtlv_body_def Let_def read_header_in_buf [OF assms(1)] by simp

lemma subtlv_body_sid_information:
  assumes "in_buf buf data 4" and "buf ! nat data = 1"
  shows "subtlv_body inet_ntop buf tlv_len data tlv_cnt pt =
         (let subtlv = \<lparr>gt_type = 1, gt_len = be16 buf (data + 1), gt_reserved = buf ! nat (data + 3)\<rparr>
          in case sid_information_case inet_ntop buf subtlv (data + 4) tlv_cnt pt of
               (Inl e, evs) \<Rightarrow> (Fault, evs)
             | (Inr (tlv_cnt1, pt'), evs) \<Rightarrow> subtlv_next subtlv tlv_len (data + 4) tlv_cnt1 pt' evs)"
  using assms(2) unfolding subtlv_body_def Let_def read_header_in_buf [OF assms(1)] by simp

subsection \<open>One SID-Information sub-TLV with one SID-Structure sub-sub-TLV\<close>


lemma endpoint_behavior_18: "endpoint_behavior_codepoint_to_name 18 = ''End.DT6''"
  by (simp add: endpoint_behavior_codepoint_to_name_def endpoint_behavior_table_def)


subsection \<open>Unrecognized top-level TLVs\<close>

lemma attr_body_consumes:
  assumes "attr_body inet_ntop buf attr_len data pt = (Continue (attr_len', data', pt'), evs)"
  shows "attr_len' = attr_len - (uint (be16 buf (data + 1)) + 3) \<and>
         data' = data + (uint (be16 buf (data + 1)) + 3)"
proof (cases "in_buf buf data 4")
  case False
  from attr_body_fault [OF this] assms show ?thesis
    by simp
next
  case True
  show ?thesis
  proof (cases "buf ! nat data = 5")
    case False
    from attr_body_skip [OF True this] assms show ?thesis
      by simp
  next
    case l3: True
    from attr_body_l3_service [OF True this] assms show ?thesis
      by (auto split: prod.splits sum.splits)
  qed
qed

lemma attr_loop_skip:
  assumes "0 < attr_len" and "in_buf buf data 4" and "buf ! nat data \<noteq> 5"
  shows "attr_loop inet_ntop buf attr_len data pt =
         (fst (attr_loop inet_ntop buf (attr_len - (uint (be16 buf (data + 1)) + 3))
                 (data + (uint (be16 buf (data + 1)) + 3)) pt),
          DbgTLVSkipped (buf ! nat data) #
          snd (attr_loop inet_ntop buf (attr_len - (uint (be16 buf (data + 1)) + 3))
                 (data + (uint (be16 buf (data + 1)) + 3)) pt))"
proof -
  have "data + 4 + (uint (be16 buf (data + 1)) - 1) = data + (uint (be16 buf (data + 1)) + 3)"
    by simp
  with attr_loop_continue [OF assms(1) attr_body_skip [OF assms(2,3)]]
  show ?thesis
    by simp
qed

lemma length_wire_tlv: "length (wire_tlv (ty, rsv, val)) = length val + 4"
  by (simp add: wire_tlv_def)

lemma unat_u8_of_nat: "n < 256 \<Longrightarrow> unat (word_of_nat n :: u8) = n"
  by (simp add: unat_of_nat)

lemma be16_wire_tlv:
  assumes "length val < 65535"
  shows "uint (be16 (pre @ wire_tlv (ty, rsv, val) @ post) (int (length pre) + 1)) = int (length val) + 1"
proof -
  let ?n = "length val + 1"
  have "?n div 256 < 256" "?n mod 256 < 256"
    using assms by simp_all
  then have "unat (word_of_nat (?n div 256) :: u8) = ?n div 256"
    "unat (word_of_nat (?n mod 256) :: u8) = ?n mod 256"
    by (simp_all only: unat_u8_of_nat)
  then have "uint (word_of_nat (?n div 256) :: u8) = int (?n div 256)"
    "uint (word_of_nat (?n mod 256) :: u8) = int (?n mod 256)"
    by (simp_all only: uint_nat)
  moreover have "nat (int (length pre) + 1) = length pre + 1"
    by simp
  ultimately have "uint (be16 (pre @ wire_tlv (ty, rsv, val) @ post) (int (length pre) + 1)) =
      256 * int (?n div 256) + int (?n mod 256)"
    unfolding uint_be16 wire_tlv_def by (simp add: nth_append del: of_nat_add of_nat_Suc)
  also have "\<dots> = int (256 * (?n div 256) + ?n mod 256)"
    by (simp only: of_nat_add of_nat_mult of_nat_numeral)
  also have "256 * (?n div 256) + ?n mod 256 = ?n"
    by (rule mult_div_mod_eq)
  finally show ?thesis
    by simp
qed

lemma attr_loop_unrecognized:
  assumes "\<forall>t \<in> set tlvs. fst t \<noteq> 5 \<and> length (snd (snd t)) < 65535"
  shows "attr_loop inet_ntop (pre @ concat (map wire_tlv tlvs) @ post)
           (int (length (concat (map wire_tlv tlvs)))) (int (length pre)) pt =
         (Inr pt, map (\<lambda>t. DbgTLVSkipped (fst t)) tlvs)"
  using assms
proof (induction tlvs arbitrary: pre)
  case Nil
  show ?case
    by (simp add: attr_loop_stop)
next
  case (Cons t tlvs)
  obtain ty rsv val where t: "t = (ty, rsv, val)"
    by (cases t)
  let ?tail = "concat (map wire_tlv tlvs)"
  let ?buf = "pre @ concat (map wire_tlv (t # tlvs)) @ post"
  have buf: "?buf = pre @ wire_tlv (ty, rsv, val) @ (?tail @ post)"
    by (simp add: t)
  from Cons.prems t have ty: "ty \<noteq> 5" and val: "length val < 65535"
    by simp_all
  have pos: "0 < int (length (concat (map wire_tlv (t # tlvs))))"
    by (simp add: t length_wire_tlv)
  have readable: "in_buf ?buf (int (length pre)) 4"
    by (simp add: in_buf_def t length_wire_tlv)
  have first: "?buf ! nat (int (length pre)) = ty"
    by (simp add: t wire_tlv_def nth_append)
  have len: "uint (be16 ?buf (int (length pre) + 1)) = int (length val) + 1"
    unfolding buf by (rule be16_wire_tlv [OF val])
  have again: "?buf = (pre @ wire_tlv t) @ ?tail @ post"
    by simp
  have rest: "attr_loop inet_ntop ?buf (int (length ?tail)) (int (length (pre @ wire_tlv t))) pt =
      (Inr pt, map (\<lambda>t. DbgTLVSkipped (fst t)) tlvs)"
    unfolding again using Cons.prems by (intro Cons.IH) simp
  have "int (length (concat (map wire_tlv (t # tlvs)))) - (int (length val) + 1 + 3) = int (length ?tail)"
    "int (length pre) + (int (length val) + 1 + 3) = int (length (pre @ wire_tlv t))"
    by (simp_all add: t length_wire_tlv)
  moreover have "?buf ! nat (int (length pre)) \<noteq> 5"
    using first ty by simp
  note attr_loop_skip [OF pos readable this, of inet_ntop pt, unfolded len]
  ultimately have "attr_loop inet_ntop ?buf (int (length (concat (map wire_tlv (t # tlvs)))))
      (int (length pre)) pt =
      (fst (attr_loop inet_ntop ?buf (int (length ?tail)) (int (length (pre @ wire_tlv t))) pt),
       DbgTLVSkipped (?buf ! nat (int (length pre))) #
       snd (attr_loop inet_ntop ?buf (int (length ?tail)) (int (length (pre @ wire_tlv t))) pt))"
    by (simp only:)
  then show ?case
    unfolding rest first by (simp add: t)
qed

text \<open>
  Claim C6. Every TLV the top-level loop processes moves the cursor by \<open>length + 3\<close>
  bytes (the 4 header bytes and \<open>length - 1\<close> bytes behind them) and takes
  \<open>length + 3\<close> from the remaining \<open>attr_len\<close>. A TLV of another type than 5 leaves
  the tree as it is and adds one diagnostic; the loop goes on with the TLVs behind it.
  An attribute made of such TLVs only decodes to the empty tree, which has no
  \<open>srv6_l3_service\<close> child.
\<close>

theorem attr_tlv_consumed_and_skipped:
  "(attr_body inet_ntop buf attr_len data pt = (Continue (attr_len', data', pt'), evs) \<longrightarrow>
      attr_len' = attr_len - (uint (be16 buf (data + 1)) + 3) \<and>
      data' = data + (uint (be16 buf (data + 1)) + 3)) \<and>
   (in_buf buf data 4 \<and> buf ! nat data \<noteq> 5 \<longrightarrow>
      attr_body inet_ntop buf attr_len data pt =
        (Continue (attr_len - (uint (be16 buf (data + 1)) + 3),
                   data + 4 + (uint (be16 buf (data + 1)) - 1), pt),
         [DbgTLVSkipped (buf ! nat data)])) \<and>
   (0 < attr_len \<and> in_buf buf data 4 \<and> buf ! nat data \<noteq> 5 \<longrightarrow>
      attr_loop inet_ntop buf attr_len data pt =
        (fst (attr_loop inet_ntop buf (attr_len - (uint (be16 buf (data + 1)) + 3))
                (data + (uint (be16 buf (data + 1)) + 3)) pt),
         DbgTLVSkipped (buf ! nat data) #
         snd (attr_loop inet_ntop buf (attr_len - (uint (be16 buf (data + 1)) + 3))
                (data + (uint (be16 buf (data + 1)) + 3)) pt))) \<and>
   ((\<forall>t \<in> set tlvs. fst t \<noteq> 5 \<and> length (snd (snd t)) < 65535) \<longrightarrow>
      parseBGPPrefixSIDAttr inet_ntop (concat (map wire_tlv tlvs) @ post)
          (int (length (concat (map wire_tlv tlvs)))) 0 parsed_data =
        (Inr (parsed_data\<lparr>attr_prefix_sid := PTree PEmpty []\<rparr>),
         map (\<lambda>t. DbgTLVSkipped (fst t)) tlvs) \<and>
      get_children ''srv6_l3_service'' (PTree PEmpty []) = [])"
proof (intro conjI impI)
  assume "attr_body inet_ntop buf attr_len data pt = (Continue (attr_len', data', pt'), evs)"
  from attr_body_consumes [OF this]
  show "attr_len' = attr_len - (uint (be16 buf (data + 1)) + 3)"
    and "data' = data + (uint (be16 buf (data + 1)) + 3)"
    by simp_all
next
  assume "in_buf buf data 4 \<and> buf ! nat data \<noteq> 5"
  then show "attr_body inet_ntop buf attr_len data pt =
        (Continue (attr_len - (uint (be16 buf (data + 1)) + 3),
                   data + 4 + (uint (be16 buf (data + 1)) - 1), pt),
         [DbgTLVSkipped (buf ! nat data)])"
    by (simp add: attr_body_skip)
next
  assume "0 < attr_len \<and> in_buf buf data 4 \<and> buf ! nat data \<noteq> 5"
  then show "attr_loop inet_ntop buf attr_len data pt =
        (fst (attr_loop inet_ntop buf (attr_len - (uint (be16 buf (data + 1)) + 3))
                (data + (uint (be16 buf (data + 1)) + 3)) pt),
         DbgTLVSkipped (buf ! nat data) #
         snd (attr_loop inet_ntop buf (attr_len - (uint (be16 buf (data + 1)) + 3))
                (data + (uint (be16 buf (data + 1)) + 3)) pt))"
    by (intro attr_loop_skip) simp_all
next
  assume "\<forall>t \<in> set tlvs. fst t \<noteq> 5 \<and> length (snd (snd t)) < 65535"
  from attr_loop_unrecognized [OF this, of inet_ntop "[]" post "PTree PEmpty []"]
  show "parseBGPPrefixSIDAttr inet_ntop (concat (map wire_tlv tlvs) @ post)
          (int (length (concat (map wire_tlv tlvs)))) 0 parsed_data =
        (Inr (parsed_data\<lparr>attr_prefix_sid := PTree PEmpty []\<rparr>),
         map (\<lambda>t. DbgTLVSkipped (fst t)) tlvs)"
    unfolding parseBGPPrefixSIDAttr_def by simp
next
  show "get_children ''srv6_l3_service'' (PTree PEmpty []) = []"
    by (simp add: get_children_def)
qed

theorem attr_tlv_consumed_and_skipped_witness:
  "parseBGPPrefixSIDAttr inet_ntop6 [99, 0, 3, 0, 0xaa, 0xbb, 7, 0, 1, 0] 10 0
       \<lparr>attr_prefix_sid = PTree PEmpty []\<rparr> =
     (Inr \<lparr>attr_prefix_sid = PTree PEmpty []\<rparr>, [DbgTLVSkipped 99, DbgTLVSkipped 7]) \<and>
   attr_loop inet_ntop6 [99, 0, 3, 0, 0xaa, 0xbb, 5, 0, 1, 0] 10 0 (PTree PEmpty []) =
     (fst (attr_loop inet_ntop6 [99, 0, 3, 0, 0xaa, 0xbb, 5, 0, 1, 0] 4 6 (PTree PEmpty [])),
      DbgTLVSkipped 99 #
      snd (attr_loop inet_ntop6 [99, 0, 3, 0, 0xaa, 0xbb, 5, 0, 1, 0] 4 6 (PTree PEmpty []))) \<and>
   attr_loop inet_ntop6 [99, 0, 3, 0, 0xaa, 0xbb, 5, 0, 1, 0] 4 6 (PTree PEmpty []) =
     (Inr (PTree PEmpty [(''srv6_l3_service'', PTree PEmpty [])]), [DbgL3ServiceTLV])"
proof -
  let ?tlvs = "[(99, 0, [0xaa, 0xbb]), (7, 0, [])] :: (u8 \<times> u8 \<times> u8 list) list"
  let ?buf = "[99, 0, 3, 0, 0xaa, 0xbb, 5, 0, 1, 0] :: u8 list"
  have only: "\<forall>t \<in> set ?tlvs. fst t \<noteq> 5 \<and> length (snd (snd t)) < 65535"
    by simp
  have wire: "concat (map wire_tlv ?tlvs) @ [] = [99, 0, 3, 0, 0xaa, 0xbb, 7, 0, 1, 0]"
    by (simp add: wire_tlv_def)
  have a: "parseBGPPrefixSIDAttr inet_ntop6 [99, 0, 3, 0, 0xaa, 0xbb, 7, 0, 1, 0] 10 0
       \<lparr>attr_prefix_sid = PTree PEmpty []\<rparr> =
     (Inr \<lparr>attr_prefix_sid = PTree PEmpty []\<rparr>, [DbgTLVSkipped 99, DbgTLVSkipped 7])"
    using attr_tlv_consumed_and_skipped
      [of inet_ntop6 ?buf 10 0 "PTree PEmpty []" 0 0 "PTree PEmpty []" "[]" ?tlvs "[]"
        "\<lparr>attr_prefix_sid = PTree PEmpty []\<rparr>"] only
    unfolding wire by (simp add: wire_tlv_def)
  have readable: "in_buf ?buf 0 4" "in_buf ?buf 6 4"
    by (simp_all add: in_buf_def)
  have len: "uint (be16 ?buf 1) = 3" "uint (be16 ?buf 7) = 1"
    by (simp_all add: uint_be16)
  have b: "attr_loop inet_ntop6 ?buf 10 0 (PTree PEmpty []) =
     (fst (attr_loop inet_ntop6 ?buf 4 6 (PTree PEmpty [])),
      DbgTLVSkipped 99 # snd (attr_loop inet_ntop6 ?buf 4 6 (PTree PEmpty [])))"
    using attr_tlv_consumed_and_skipped
      [of inet_ntop6 ?buf 10 0 "PTree PEmpty []" 0 0 "PTree PEmpty []" "[]" ?tlvs "[]"
        "\<lparr>attr_prefix_sid = PTree PEmpty []\<rparr>"] readable(1)
    by (simp add: len)
  have "attr_body inet_ntop6 ?buf 4 6 (PTree PEmpty []) =
        (Continue (0, 10, PTree PEmpty [(''srv6_l3_service'', PTree PEmpty [])]), [DbgL3ServiceTLV])"
    using attr_body_l3_service [OF readable(2), of inet_ntop6 4 "PTree PEmpty []"]
    by (simp add: len parseSRv6L3ServiceTLV_empty add_child_def)
  from attr_loop_continue [OF _ this]
  have c: "attr_loop inet_ntop6 ?buf 4 6 (PTree PEmpty []) =
     (Inr (PTree PEmpty [(''srv6_l3_service'', PTree PEmpty [])]), [DbgL3ServiceTLV])"
    by (simp add: attr_loop_stop)
  from a b c show ?thesis
    by (simp only: simp_thms)
qed

subsection \<open>Induction along the loops\<close>

lemma attr_loop_cases [case_names stop fault continue]:
  assumes "\<And>attr_len data pt. attr_len \<le> 0 \<Longrightarrow> P attr_len data pt"
    and "\<And>attr_len data pt evs.
           0 < attr_len \<Longrightarrow> attr_body inet_ntop buf attr_len data pt = (Fault, evs) \<Longrightarrow>
           P attr_len data pt"
    and "\<And>attr_len data pt attr_len' data' pt' evs.
           0 < attr_len \<Longrightarrow>
           attr_body inet_ntop buf attr_len data pt = (Continue (attr_len', data', pt'), evs) \<Longrightarrow>
           P attr_len' data' pt' \<Longrightarrow> P attr_len data pt"
  shows "P attr_len data pt"
  using assms
proof (induction inet_ntop buf attr_len data pt rule: attr_loop.induct)
  case (1 inet_ntop buf attr_len data pt)
  show ?case
  proof (cases "0 < attr_len")
    case False
    then show ?thesis
      by (intro "1.prems"(1)) simp
  next
    case True
    obtain x evs where body: "attr_body inet_ntop buf attr_len data pt = (x, evs)"
      by (cases "attr_body inet_ntop buf attr_len data pt")
    show ?thesis
    proof (cases x)
      case Fault
      with True body show ?thesis
        by (intro "1.prems"(2)) simp_all
    next
      case (Break st)
      with body attr_body_never_breaks show ?thesis
        by blast
    next
      case (Continue st)
      obtain l d p where st: "st = (l, d, p)"
        by (cases st)
      have "P l d p"
        using "1.IH" [OF True body [symmetric] Continue st [symmetric] refl] "1.prems"
        by blast
      with True body Continue st show ?thesis
        by (intro "1.prems"(3) [of attr_len data pt l d p evs]) simp_all
    qed
  qed
qed

lemma subtlv_loop_cases [case_names stop fault break continue]:
  assumes "\<And>data tlv_cnt pt. P 0 data tlv_cnt pt"
    and "\<And>tlv_len data tlv_cnt pt evs.
           tlv_len \<noteq> 0 \<Longrightarrow> subtlv_body inet_ntop buf tlv_len data tlv_cnt pt = (Fault, evs) \<Longrightarrow>
           P tlv_len data tlv_cnt pt"
    and "\<And>tlv_len data tlv_cnt pt tlv_len' data' tlv_cnt' pt' evs.
           tlv_len \<noteq> 0 \<Longrightarrow>
           subtlv_body inet_ntop buf tlv_len data tlv_cnt pt =
             (Break (tlv_len', data', tlv_cnt', pt'), evs) \<Longrightarrow>
           P tlv_len data tlv_cnt pt"
    and "\<And>tlv_len data tlv_cnt pt tlv_len' data' tlv_cnt' pt' evs.
           tlv_len \<noteq> 0 \<Longrightarrow>
           subtlv_body inet_ntop buf tlv_len data tlv_cnt pt =
             (Continue (tlv_len', data', tlv_cnt', pt'), evs) \<Longrightarrow>
           P tlv_len' data' tlv_cnt' pt' \<Longrightarrow> P tlv_len data tlv_cnt pt"
  shows "P tlv_len data tlv_cnt pt"
  using assms
proof (induction inet_ntop buf tlv_len data tlv_cnt pt rule: subtlv_loop.induct)
  case (1 inet_ntop buf tlv_len data tlv_cnt pt)
  show ?case
  proof (cases "tlv_len \<noteq> 0")
    case False
    then show ?thesis
      using "1.prems"(1) by simp
  next
    case True
    obtain x evs where body: "subtlv_body inet_ntop buf tlv_len data tlv_cnt pt = (x, evs)"
      by (cases "subtlv_body inet_ntop buf tlv_len data tlv_cnt pt")
    show ?thesis
    proof (cases x)
      case Fault
      with True body show ?thesis
        by (intro "1.prems"(2)) simp_all
    next
      case (Break st)
      obtain l d c p where st: "st = (l, d, c, p)"
        by (cases st)
      with True body Break show ?thesis
        by (intro "1.prems"(3) [of tlv_len data tlv_cnt pt l d c p evs]) simp_all
    next
      case (Continue st)
      obtain l d c p where st: "st = (l, d, c, p)"
        by (cases st)
      have "P l d c p"
        using "1.IH" [OF True body [symmetric] Continue st [symmetric] refl refl] "1.prems"
        by blast
      with True body Continue st show ?thesis
        by (intro "1.prems"(4) [of tlv_len data tlv_cnt pt l d c p evs]) simp_all
    qed
  qed
qed

lemma subsubtlv_loop_cases [case_names stop fault break continue]:
  assumes "\<And>subtlv_len sub_data subtlv_cnt tlv_cnt sub_pt.
           subtlv_len \<le> 0 \<Longrightarrow> P subtlv_len sub_data subtlv_cnt tlv_cnt sub_pt"
    and "\<And>subtlv_len sub_data subtlv_cnt tlv_cnt sub_pt evs.
           0 < subtlv_len \<Longrightarrow>
           subsubtlv_body buf subtlv_len sub_data subtlv_cnt tlv_cnt sub_pt = (Fault, evs) \<Longrightarrow>
           P subtlv_len sub_data subtlv_cnt tlv_cnt sub_pt"
    and "\<And>subtlv_len sub_data subtlv_cnt tlv_cnt sub_pt subtlv_len' sub_data' subtlv_cnt' tlv_cnt' sub_pt' evs.
           0 < subtlv_len \<Longrightarrow>
           subsubtlv_body buf subtlv_len sub_data subtlv_cnt tlv_cnt sub_pt =
             (Break (subtlv_len', sub_data', subtlv_cnt', tlv_cnt', sub_pt'), evs) \<Longrightarrow>
           P subtlv_len sub_data subtlv_cnt tlv_cnt sub_pt"
    and "\<And>subtlv_len sub_data subtlv_cnt tlv_cnt sub_pt subtlv_len' sub_data' subtlv_cnt' tlv_cnt' sub_pt' evs.
           0 < subtlv_len \<Longrightarrow>
           subsubtlv_body buf subtlv_len sub_data subtlv_cnt tlv_cnt sub_pt =
             (Continue (subtlv_len', sub_data', subtlv_cnt', tlv_cnt', sub_pt'), evs) \<Longrightarrow>
           P subtlv_len' sub_data' subtlv_cnt' tlv_cnt' sub_pt' \<Longrightarrow>
           P subtlv_len sub_data subtlv_cnt tlv_cnt sub_pt"
  shows "P subtlv_len sub_data subtlv_cnt tlv_cnt sub_pt"
  using assms
proof (induction buf subtlv_len sub_data subtlv_cnt tlv_cnt sub_pt rule: subsubtlv_loop.induct)
  case (1 buf subtlv_len sub_data subtlv_cnt tlv_cnt sub_pt)
  show ?case
  proof (cases "0 < subtlv_len")
    case False
    then show ?thesis
      by (intro "1.prems"(1)) simp
  next
    case True
    obtain x evs where body: "subsubtlv_body buf subtlv_len sub_data subtlv_cnt tlv_cnt sub_pt = (x, evs)"
      by (cases "subsubtlv_body buf subtlv_len sub_data subtlv_cnt tlv_cnt sub_pt")
    show ?thesis
    proof (cases x)
      case Fault
      with True body show ?thesis
        by (intro "1.prems"(2)) simp_all
    next
      case (Break st)
      obtain l d c t p where st: "st = (l, d, c, t, p)"
        by (cases st)
      with True body Break show ?thesis
        by (intro "1.prems"(3) [of subtlv_len sub_data subtlv_cnt tlv_cnt sub_pt l d c t p evs]) simp_all
    next
      case (Continue st)
      obtain l d c t p where st: "st = (l, d, c, t, p)"
        by (cases st)
      have "P l d c t p"
        using "1.IH" [OF True body [symmetric] Continue st [symmetric] refl refl refl] "1.prems"
        by blast
      with True body Continue st show ?thesis
        by (intro "1.prems"(4) [of subtlv_len sub_data subtlv_cnt tlv_cnt sub_pt l d c t p evs]) simp_all
    qed
  qed
qed

subsection \<open>The trees only grow\<close>














subsection \<open>The trees alone\<close>

text \<open>The same unfoldings for the first component, where the diagnostics do not matter.\<close>

lemma fst_attr_loop_continue:
  assumes "0 < attr_len" and "fst (attr_body inet_ntop buf attr_len data pt) = Continue (l, d, p)"
  shows "fst (attr_loop inet_ntop buf attr_len data pt) = fst (attr_loop inet_ntop buf l d p)"
proof -
  from assms(2) have "attr_body inet_ntop buf attr_len data pt =
      (Continue (l, d, p), snd (attr_body inet_ntop buf attr_len data pt))"
    by (metis prod.collapse)
  from attr_loop_continue [OF assms(1) this] show ?thesis
    by simp
qed

lemma fst_attr_body_l3_service:
  assumes "in_buf buf data 4" and "buf ! nat data = 5"
    and "fst (parseSRv6L3ServiceTLV inet_ntop buf (uint (be16 buf (data + 1)) - 1) (data + 4)) = Inr sub_pt"
  shows "fst (attr_body inet_ntop buf attr_len data pt) =
         Continue (attr_len - (uint (be16 buf (data + 1)) + 3),
                   data + 4 + (uint (be16 buf (data + 1)) - 1),
                   add_child ''srv6_l3_service'' sub_pt pt)"
  using assms(3) unfolding attr_body_l3_service [OF assms(1,2)]
  by (auto split: prod.splits sum.splits)

lemma fst_subtlv_loop_continue:
  assumes "tlv_len \<noteq> 0"
    and "fst (subtlv_body inet_ntop buf tlv_len data tlv_cnt pt) = Continue (l, d, c, p)"
  shows "fst (subtlv_loop inet_ntop buf tlv_len data tlv_cnt pt) =
         fst (subtlv_loop inet_ntop buf l d c p)"
proof -
  from assms(2) have "subtlv_body inet_ntop buf tlv_len data tlv_cnt pt =
      (Continue (l, d, c, p), snd (subtlv_body inet_ntop buf tlv_len data tlv_cnt pt))"
    by (metis prod.collapse)
  from subtlv_loop_continue [OF assms(1) this] show ?thesis
    by simp
qed

lemma fst_subtlv_loop_break:
  assumes "tlv_len \<noteq> 0"
    and "fst (subtlv_body inet_ntop buf tlv_len data tlv_cnt pt) = Break (l, d, c, p)"
  shows "fst (subtlv_loop inet_ntop buf tlv_len data tlv_cnt pt) = Inr p"
proof -
  from assms(2) have "subtlv_body inet_ntop buf tlv_len data tlv_cnt pt =
      (Break (l, d, c, p), snd (subtlv_body inet_ntop buf tlv_len data tlv_cnt pt))"
    by (metis prod.collapse)
  from subtlv_loop_break [OF assms(1) this] show ?thesis
    by simp
qed

lemma fst_subtlv_next:
  "fst (subtlv_next subtlv tlv_len sub_data tlv_cnt pt evs) =
     (if tlv_cnt + 1 > 3
      then Break (tlv_len - (uint (gt_len subtlv) + 3), sub_data + (uint (gt_len subtlv) - 1),
                  tlv_cnt + 1, pt)
      else Continue (tlv_len - (uint (gt_len subtlv) + 3), sub_data + (uint (gt_len subtlv) - 1),
                     tlv_cnt + 1, pt))"
  by (simp add: subtlv_next_def Let_def)

lemma fst_subtlv_body_skip:
  assumes "in_buf buf data 4" and "buf ! nat data \<noteq> 1"
  shows "fst (subtlv_body inet_ntop buf tlv_len data tlv_cnt pt) =
     (if tlv_cnt + 1 > 3
      then Break (tlv_len - (uint (be16 buf (data + 1)) + 3),
                  data + 4 + (uint (be16 buf (data + 1)) - 1), tlv_cnt + 1, pt)
      else Continue (tlv_len - (uint (be16 buf (data + 1)) + 3),
                     data + 4 + (uint (be16 buf (data + 1)) - 1), tlv_cnt + 1, pt))"
  unfolding subtlv_body_skip [OF assms] fst_subtlv_next by simp

lemma fst_subtlv_body_sid_information:
  assumes "in_buf buf data 4" and "buf ! nat data = 1"
    and "fst (sid_information_case inet_ntop buf
           \<lparr>gt_type = 1, gt_len = be16 buf (data + 1), gt_reserved = buf ! nat (data + 3)\<rparr>
           (data + 4) tlv_cnt pt) = Inr (tlv_cnt1, pt')"
  shows "fst (subtlv_body inet_ntop buf tlv_len data tlv_cnt pt) =
     (if tlv_cnt1 + 1 > 3
      then Break (tlv_len - (uint (be16 buf (data + 1)) + 3),
                  data + 4 + (uint (be16 buf (data + 1)) - 1), tlv_cnt1 + 1, pt')
      else Continue (tlv_len - (uint (be16 buf (data + 1)) + 3),
                     data + 4 + (uint (be16 buf (data + 1)) - 1), tlv_cnt1 + 1, pt'))"
  using assms(3) unfolding subtlv_body_sid_information [OF assms(1,2)] Let_def
  by (auto simp: fst_subtlv_next split: prod.splits sum.splits)

lemma fst_sid_information_case:
  assumes "in_buf buf sub_data 20"
    and "fst (subsubtlv_loop buf (uint (gt_len subtlv) - 21) (sub_data + 20) 0 tlv_cnt
           (sid_information_tree inet_ntop
              \<lparr>sid_value = take 16 (drop (nat sub_data) buf),
               service_sid_flags = buf ! nat (sub_data + 16),
               endpoint_behavior = be16 buf (sub_data + 17),
               sid_reserved = buf ! nat (sub_data + 19)\<rparr>)) = Inr (tlv_cnt', sub_pt')"
  shows "fst (sid_information_case inet_ntop buf subtlv sub_data tlv_cnt pt) =
         Inr (tlv_cnt', add_child ''sid_information'' sub_pt' pt)"
  using assms(2) unfolding sid_information_case_def read_sid_information_in_buf [OF assms(1)] Let_def
  by (auto split: prod.splits sum.splits)


lemma fst_subsubtlv_loop_break:
  assumes "0 < subtlv_len"
    and "fst (subsubtlv_body buf subtlv_len sub_data subtlv_cnt tlv_cnt sub_pt) = Break (l, d, c, t, p)"
  shows "fst (subsubtlv_loop buf subtlv_len sub_data subtlv_cnt tlv_cnt sub_pt) = Inr (t, p)"
proof -
  from assms(2) have "subsubtlv_body buf subtlv_len sub_data subtlv_cnt tlv_cnt sub_pt =
      (Break (l, d, c, t, p), snd (subsubtlv_body buf subtlv_len sub_data subtlv_cnt tlv_cnt sub_pt))"
    by (metis prod.collapse)
  from subsubtlv_loop_break [OF assms(1) this] show ?thesis
    by simp
qed

lemma fst_subsubtlv_next:
  "fst (subsubtlv_next subsubtlv subtlv_len subsub_data subtlv_cnt tlv_cnt sub_pt evs) =
     (if subtlv_cnt + 1 > 3 then
        if tlv_cnt + 1 > 3
        then Break (subtlv_len - (uint (gt_len subsubtlv) + 3),
                    subsub_data + (uint (gt_len subsubtlv) - 1), subtlv_cnt + 1, tlv_cnt + 1, sub_pt)
        else Continue (subtlv_len - (uint (gt_len subsubtlv) + 3),
                       subsub_data + (uint (gt_len subsubtlv) - 1), subtlv_cnt + 1, tlv_cnt + 1, sub_pt)
      else Continue (subtlv_len - (uint (gt_len subsubtlv) + 3),
                     subsub_data + (uint (gt_len subsubtlv) - 1), subtlv_cnt + 1, tlv_cnt, sub_pt))"
  by (simp add: subsubtlv_next_def Let_def)

lemma fst_subsubtlv_body_skip:
  assumes "in_buf buf sub_data 4" and "buf ! nat sub_data \<noteq> 1"
  shows "fst (subsubtlv_body buf subtlv_len sub_data subtlv_cnt tlv_cnt sub_pt) =
     (if subtlv_cnt + 1 > 3 then
        if tlv_cnt + 1 > 3
        then Break (subtlv_len - (uint (be16 buf (sub_data + 1)) + 3),
                    sub_data + 4 + (uint (be16 buf (sub_data + 1)) - 1),
                    subtlv_cnt + 1, tlv_cnt + 1, sub_pt)
        else Continue (subtlv_len - (uint (be16 buf (sub_data + 1)) + 3),
                       sub_data + 4 + (uint (be16 buf (sub_data + 1)) - 1),
                       subtlv_cnt + 1, tlv_cnt + 1, sub_pt)
      else Continue (subtlv_len - (uint (be16 buf (sub_data + 1)) + 3),
                     sub_data + 4 + (uint (be16 buf (sub_data + 1)) - 1),
                     subtlv_cnt + 1, tlv_cnt, sub_pt))"
  unfolding subsubtlv_body_skip [OF assms] fst_subsubtlv_next by simp


subsection \<open>How many elements a loop processes\<close>

lemma processed_append [simp]:
  "tlvs_processed (xs @ ys) = tlvs_processed xs + tlvs_processed ys"
  "subtlvs_processed (xs @ ys) = subtlvs_processed xs + subtlvs_processed ys"
  "subsubtlvs_processed (xs @ ys) = subsubtlvs_processed xs + subsubtlvs_processed ys"
  by (simp_all add: tlvs_processed_def subtlvs_processed_def subsubtlvs_processed_def)

lemma processed_Nil [simp]:
  "tlvs_processed [] = 0" "subtlvs_processed [] = 0" "subsubtlvs_processed [] = 0"
  by (simp_all add: tlvs_processed_def subtlvs_processed_def subsubtlvs_processed_def)

lemma processed_Cons [simp]:
  "tlvs_processed (e # evs) = (if is_tlv_event e then 1 else 0) + tlvs_processed evs"
  "subtlvs_processed (e # evs) = (if is_subtlv_event e then 1 else 0) + subtlvs_processed evs"
  "subsubtlvs_processed (e # evs) = (if is_subsubtlv_event e then 1 else 0) + subsubtlvs_processed evs"
  by (simp_all add: tlvs_processed_def subtlvs_processed_def subsubtlvs_processed_def)

lemma sid_structure_events_processed [simp]:
  "tlvs_processed (sid_structure_events s) = 0"
  "subtlvs_processed (sid_structure_events s) = 0"
  "subsubtlvs_processed (sid_structure_events s) = 1"
  by (simp_all add: sid_structure_events_def)

lemma sid_information_events_processed [simp]:
  "tlvs_processed (sid_information_events s) = 0"
  "subtlvs_processed (sid_information_events s) = 1"
  "subsubtlvs_processed (sid_information_events s) = 0"
  by (simp_all add: sid_information_events_def)

lemma sid_structure_case_processed:
  assumes "sid_structure_case buf subsub_data sub_pt = (r, evs)"
  shows "tlvs_processed evs = 0 \<and> subtlvs_processed evs = 0 \<and> subsubtlvs_processed evs = 1"
  using assms unfolding sid_structure_case_def Let_def
  by (auto split: sum.splits)

lemma subsubtlv_next_processed:
  assumes "subsubtlv_next tlv subtlv_len subsub_data subtlv_cnt tlv_cnt sub_pt evs = (x, evs')"
  shows "tlvs_processed evs' = tlvs_processed evs \<and> subtlvs_processed evs' = subtlvs_processed evs \<and>
         subsubtlvs_processed evs' = subsubtlvs_processed evs"
  using assms unfolding subsubtlv_next_def Let_def
  by (auto split: if_splits)

lemma subsubtlv_body_processed:
  assumes "subsubtlv_body buf subtlv_len sub_data subtlv_cnt tlv_cnt sub_pt = (x, evs)"
  shows "tlvs_processed evs = 0 \<and> subtlvs_processed evs = 0 \<and> subsubtlvs_processed evs \<le> 1 \<and>
         (x \<noteq> Fault \<longrightarrow> subsubtlvs_processed evs = 1)"
  using assms unfolding subsubtlv_body_def Let_def
  by (auto split: sum.splits prod.splits if_splits
      dest!: subsubtlv_next_processed sid_structure_case_processed)

lemma subsubtlv_loop_processed:
  "tlvs_processed (snd (subsubtlv_loop buf subtlv_len sub_data subtlv_cnt tlv_cnt sub_pt)) = 0 \<and>
   subtlvs_processed (snd (subsubtlv_loop buf subtlv_len sub_data subtlv_cnt tlv_cnt sub_pt)) = 0 \<and>
   int (subsubtlvs_processed (snd (subsubtlv_loop buf subtlv_len sub_data subtlv_cnt tlv_cnt sub_pt)))
     \<le> max 0 ((subtlv_len + 2) div 3)"
proof (induction subtlv_len sub_data subtlv_cnt tlv_cnt sub_pt
    rule: subsubtlv_loop_cases [where buf = buf])
  case (stop subtlv_len sub_data subtlv_cnt tlv_cnt sub_pt)
  then show ?case
    by (simp add: subsubtlv_loop_stop)
next
  case (fault subtlv_len sub_data subtlv_cnt tlv_cnt sub_pt evs)
  from fault(1) have "1 \<le> (subtlv_len + 2) div 3"
    by linarith
  with subsubtlv_body_processed [OF fault(2)] show ?case
    unfolding subsubtlv_loop_fault [OF fault] by simp
next
  case (break subtlv_len sub_data subtlv_cnt tlv_cnt sub_pt subtlv_len' sub_data' subtlv_cnt' tlv_cnt' sub_pt' evs)
  from break(1) have "1 \<le> (subtlv_len + 2) div 3"
    by linarith
  with subsubtlv_body_processed [OF break(2)] show ?case
    unfolding subsubtlv_loop_break [OF break] by simp
next
  case (continue subtlv_len sub_data subtlv_cnt tlv_cnt sub_pt subtlv_len' sub_data' subtlv_cnt' tlv_cnt' sub_pt' evs)
  from subsubtlv_body_decreases [OF continue(2)] have "subtlv_len' \<le> subtlv_len - 3" .
  then have "max 0 ((subtlv_len' + 2) div 3) + 1 \<le> max 0 ((subtlv_len + 2) div 3)"
    using continue(1) by (simp add: max_def) linarith
  with subsubtlv_body_processed [OF continue(2)] continue(3) show ?case
    unfolding subsubtlv_loop_continue [OF continue(1,2)] by (simp del: max.bounded_iff; linarith)
qed

lemma sid_information_case_processed:
  assumes "sid_information_case inet_ntop buf subtlv sub_data tlv_cnt pt = (r, evs)"
  shows "tlvs_processed evs = 0 \<and> subtlvs_processed evs = 1"
proof (cases "read_sid_information buf sub_data")
  case (Inl e)
  with assms show ?thesis
    unfolding sid_information_case_def by auto
next
  case (Inr info)
  let ?loop = "subsubtlv_loop buf (uint (gt_len subtlv) - 21) (sub_data + 20) 0 tlv_cnt
      (sid_information_tree inet_ntop info)"
  from assms Inr have "evs = sid_information_events info @ snd ?loop"
    unfolding sid_information_case_def Let_def by (auto split: prod.splits sum.splits)
  with subsubtlv_loop_processed [of buf "uint (gt_len subtlv) - 21" "sub_data + 20" 0 tlv_cnt
      "sid_information_tree inet_ntop info"]
  show ?thesis
    by simp
qed

lemma subtlv_next_processed:
  assumes "subtlv_next tlv tlv_len sub_data tlv_cnt pt evs = (x, evs')"
  shows "tlvs_processed evs' = tlvs_processed evs \<and> subtlvs_processed evs' = subtlvs_processed evs"
  using assms unfolding subtlv_next_def Let_def
  by (auto split: if_splits)

lemma subtlv_body_processed:
  assumes "subtlv_body inet_ntop buf tlv_len data tlv_cnt pt = (x, evs)"
  shows "tlvs_processed evs = 0 \<and> subtlvs_processed evs \<le> 1 \<and>
         (x \<noteq> Fault \<longrightarrow> subtlvs_processed evs = 1)"
  using assms unfolding subtlv_body_def Let_def
  by (auto split: sum.splits prod.splits if_splits
      dest!: subtlv_next_processed sid_information_case_processed)

lemma subtlv_body_break:
  assumes "subtlv_body inet_ntop buf tlv_len data tlv_cnt pt = (Break (tlv_len', data', tlv_cnt', pt'), evs)"
  shows "tlv_cnt < tlv_cnt' \<and> 3 < tlv_cnt'"
  using assms unfolding subtlv_body_def subtlv_next_def Let_def
  by (auto split: sum.splits prod.splits if_splits dest: sid_information_case_tlv_cnt)

lemma subtlv_loop_processed:
  "tlvs_processed (snd (subtlv_loop inet_ntop buf tlv_len data tlv_cnt pt)) = 0 \<and>
   int (subtlvs_processed (snd (subtlv_loop inet_ntop buf tlv_len data tlv_cnt pt)))
     \<le> max 1 (4 - tlv_cnt)"
proof (induction tlv_len data tlv_cnt pt
    rule: subtlv_loop_cases [where inet_ntop = inet_ntop and buf = buf])
  case (stop data tlv_cnt pt)
  then show ?case
    by (simp add: subtlv_loop_stop)
next
  case (fault tlv_len data tlv_cnt pt evs)
  from subtlv_body_processed [OF fault(2)] show ?case
    unfolding subtlv_loop_fault [OF fault] by (simp add: max_def)
next
  case (break tlv_len data tlv_cnt pt tlv_len' data' tlv_cnt' pt' evs)
  from subtlv_body_processed [OF break(2)] show ?case
    unfolding subtlv_loop_break [OF break] by (simp add: max_def)
next
  case (continue tlv_len data tlv_cnt pt tlv_len' data' tlv_cnt' pt' evs)
  from subtlv_body_tlv_cnt [OF continue(2)]
  have "max 1 (4 - tlv_cnt') + 1 \<le> max 1 (4 - tlv_cnt)"
    by (simp add: max_def)
  with subtlv_body_processed [OF continue(2)] continue(3) show ?case
    unfolding subtlv_loop_continue [OF continue(1,2)] by (simp del: max.bounded_iff; linarith)
qed

lemma attr_body_processed:
  assumes "attr_body inet_ntop buf attr_len data pt = (x, evs)"
  shows "tlvs_processed evs \<le> 1 \<and> (x \<noteq> Fault \<longrightarrow> tlvs_processed evs = 1)"
proof (cases "in_buf buf data 4")
  case False
  from attr_body_fault [OF this] assms show ?thesis
    by auto
next
  case True
  show ?thesis
  proof (cases "buf ! nat data = 5")
    case False
    from attr_body_skip [OF True this] assms show ?thesis
      by auto
  next
    case recognized: True
    from subtlv_loop_processed
    have "tlvs_processed (snd (parseSRv6L3ServiceTLV inet_ntop buf
        (uint (be16 buf (data + 1)) - 1) (data + 4))) = 0"
      unfolding parseSRv6L3ServiceTLV_def by simp
    with attr_body_l3_service [OF True recognized, of inet_ntop attr_len pt] assms show ?thesis
      by (auto split: prod.splits sum.splits)
  qed
qed

lemma attr_loop_processed:
  "int (tlvs_processed (snd (attr_loop inet_ntop buf attr_len data pt))) \<le> max 0 ((attr_len + 2) div 3)"
proof (induction attr_len data pt rule: attr_loop_cases [where inet_ntop = inet_ntop and buf = buf])
  case (stop attr_len data pt)
  then show ?case
    by (simp add: attr_loop_stop)
next
  case (fault attr_len data pt evs)
  from fault(1) have "1 \<le> (attr_len + 2) div 3"
    by linarith
  with attr_body_processed [OF fault(2)] show ?case
    unfolding attr_loop_fault [OF fault] by simp
next
  case (continue attr_len data pt attr_len' data' pt' evs)
  from attr_body_decreases [OF continue(2)] have "attr_len' \<le> attr_len - 3" .
  then have "max 0 ((attr_len' + 2) div 3) + 1 \<le> max 0 ((attr_len + 2) div 3)"
    using continue(1) by (simp add: max_def) linarith
  with attr_body_processed [OF continue(2)] continue(3) show ?case
    unfolding attr_loop_continue [OF continue(1,2)] by (simp del: max.bounded_iff; linarith)
qed

subsection \<open>A sub-TLV longer than the TLV that holds it\<close>

text \<open>
  A TLV of type 5 and length 3 leaves \<open>tlv_len = 2\<close> for its sub-TLVs; the bytes
  behind it are read as four sub-TLVs of type 2 and length 1, four bytes each.
\<close>

lemma subtlv_loop_past_budget:
  "parseSRv6L3ServiceTLV inet_ntop
     [5, 0, 3, 0, 2, 0, 1, 0, 2, 0, 1, 0, 2, 0, 1, 0, 2, 0, 1, 0] 2 4 =
   (Inr (PTree PEmpty []),
    [DbgSubTLVSkipped 2, DbgSubTLVSkipped 2, DbgSubTLVSkipped 2, DbgSubTLVSkipped 2,
     DbgTooMuchLoopTlv])"
proof -
  let ?B = "[5, 0, 3, 0, 2, 0, 1, 0, 2, 0, 1, 0, 2, 0, 1, 0, 2, 0, 1, 0] :: u8 list"
  let ?e = "PTree PEmpty []"
  have rd: "in_buf ?B 4 4" "in_buf ?B 8 4" "in_buf ?B 12 4" "in_buf ?B 16 4"
    by (simp_all add: in_buf_def)
  have len: "uint (be16 ?B 5) = 1" "uint (be16 ?B 9) = 1" "uint (be16 ?B 13) = 1"
    "uint (be16 ?B 17) = 1"
    by (simp_all add: uint_be16)
  have b1: "subtlv_body inet_ntop ?B 2 4 0 ?e = (Continue (- 2, 8, 1, ?e), [DbgSubTLVSkipped 2])"
    using subtlv_body_skip [OF rd(1), of inet_ntop 2 0 ?e] by (simp add: subtlv_next_def len)
  have b2: "subtlv_body inet_ntop ?B (- 2) 8 1 ?e = (Continue (- 6, 12, 2, ?e), [DbgSubTLVSkipped 2])"
    using subtlv_body_skip [OF rd(2), of inet_ntop "- 2" 1 ?e] by (simp add: subtlv_next_def len)
  have b3: "subtlv_body inet_ntop ?B (- 6) 12 2 ?e = (Continue (- 10, 16, 3, ?e), [DbgSubTLVSkipped 2])"
    using subtlv_body_skip [OF rd(3), of inet_ntop "- 6" 2 ?e] by (simp add: subtlv_next_def len)
  have b4: "subtlv_body inet_ntop ?B (- 10) 16 3 ?e =
      (Break (- 14, 20, 4, ?e), [DbgSubTLVSkipped 2, DbgTooMuchLoopTlv])"
    using subtlv_body_skip [OF rd(4), of inet_ntop "- 10" 3 ?e] by (simp add: subtlv_next_def len)
  show ?thesis
    unfolding parseSRv6L3ServiceTLV_def
    using subtlv_loop_continue [OF _ b1] subtlv_loop_continue [OF _ b2]
      subtlv_loop_continue [OF _ b3] subtlv_loop_break [OF _ b4]
    by simp
qed

text \<open>
  Claim C9. Both decode functions are total: every loop is a function with a
  termination proof. Each iteration of the top-level loop takes at least 3 from
  \<open>attr_len\<close>, so it processes at most \<open>ceil(attr_len / 3)\<close> TLVs. The sub-TLV loop,
  whose condition is \<open>tlv_len \<noteq> 0\<close>, goes on only while the counter, which grows in
  each iteration, is at most 3, so a call of \<open>parseSRv6L3ServiceTLV\<close> processes at most
  4 sub-TLVs for any \<open>tlv_len\<close>, negative ones too. Each iteration of the sub-sub-TLV
  loop takes at least 3 from \<open>subtlv_len\<close>, and its condition is \<open>subtlv_len > 0\<close>.
  An iteration that reads outside the buffer at its header is not counted: the loop
  ends there with \<open>Overread\<close>.
\<close>

theorem decode_loops_bounded:
  "(attr_body inet_ntop buf attr_len data pt = (Continue (attr_len', data', pt'), evs) \<longrightarrow>
      attr_len' \<le> attr_len - 3) \<and>
   int (tlvs_processed (snd (parseBGPPrefixSIDAttr inet_ntop buf attr_len data parsed_data)))
     \<le> max 0 ((attr_len + 2) div 3) \<and>
   (subtlv_body inet_ntop buf tlv_len data tlv_cnt pt = (Continue (tlv_len', data', tlv_cnt', pt'), evs) \<longrightarrow>
      tlv_cnt < tlv_cnt' \<and> tlv_cnt' \<le> 3) \<and>
   subtlvs_processed (snd (parseSRv6L3ServiceTLV inet_ntop buf tlv_len data)) \<le> 4 \<and>
   (subsubtlv_body buf subtlv_len sub_data subtlv_cnt tlv_cnt sub_pt =
      (Continue (subtlv_len', sub_data', subtlv_cnt', tlv_cnt', sub_pt'), evs) \<longrightarrow>
      subtlv_len' \<le> subtlv_len - 3) \<and>
   int (subsubtlvs_processed (snd (subsubtlv_loop buf subtlv_len sub_data subtlv_cnt tlv_cnt sub_pt)))
     \<le> max 0 ((subtlv_len + 2) div 3)"
proof (intro conjI impI)
  show "attr_len' \<le> attr_len - 3"
    if "attr_body inet_ntop buf attr_len data pt = (Continue (attr_len', data', pt'), evs)"
    using that by (rule attr_body_decreases)
  have "snd (parseBGPPrefixSIDAttr inet_ntop buf attr_len data parsed_data) =
        snd (attr_loop inet_ntop buf attr_len data (PTree PEmpty []))"
    unfolding parseBGPPrefixSIDAttr_def by (auto split: prod.splits sum.splits)
  then show "int (tlvs_processed (snd (parseBGPPrefixSIDAttr inet_ntop buf attr_len data parsed_data)))
     \<le> max 0 ((attr_len + 2) div 3)"
    using attr_loop_processed [of inet_ntop buf attr_len data "PTree PEmpty []"] by simp
  show "tlv_cnt < tlv_cnt'" and "tlv_cnt' \<le> 3"
    if "subtlv_body inet_ntop buf tlv_len data tlv_cnt pt = (Continue (tlv_len', data', tlv_cnt', pt'), evs)"
    using subtlv_body_tlv_cnt [OF that] by simp_all
  show "subtlvs_processed (snd (parseSRv6L3ServiceTLV inet_ntop buf tlv_len data)) \<le> 4"
    using subtlv_loop_processed [of inet_ntop buf tlv_len data 0 "PTree PEmpty []"]
    unfolding parseSRv6L3ServiceTLV_def by simp
  show "subtlv_len' \<le> subtlv_len - 3"
    if "subsubtlv_body buf subtlv_len sub_data subtlv_cnt tlv_cnt sub_pt =
      (Continue (subtlv_len', sub_data', subtlv_cnt', tlv_cnt', sub_pt'), evs)"
    using that by (rule subsubtlv_body_decreases)
  show "int (subsubtlvs_processed (snd (subsubtlv_loop buf subtlv_len sub_data subtlv_cnt tlv_cnt sub_pt)))
     \<le> max 0 ((subtlv_len + 2) div 3)"
    using subsubtlv_loop_processed [of buf subtlv_len sub_data subtlv_cnt tlv_cnt sub_pt] by simp
qed

theorem decode_loops_bounded_witness:
  "snd (parseSRv6L3ServiceTLV inet_ntop6
          [5, 0, 3, 0, 2, 0, 1, 0, 2, 0, 1, 0, 2, 0, 1, 0, 2, 0, 1, 0] 2 4) =
     [DbgSubTLVSkipped 2, DbgSubTLVSkipped 2, DbgSubTLVSkipped 2, DbgSubTLVSkipped 2,
      DbgTooMuchLoopTlv] \<and>
   subtlvs_processed (snd (parseSRv6L3ServiceTLV inet_ntop6
          [5, 0, 3, 0, 2, 0, 1, 0, 2, 0, 1, 0, 2, 0, 1, 0, 2, 0, 1, 0] 2 4)) = 4 \<and>
   subtlv_body inet_ntop6 [5, 0, 3, 0, 2, 0, 1, 0, 2, 0, 1, 0, 2, 0, 1, 0, 2, 0, 1, 0] 2 4 0
       (PTree PEmpty []) =
     (Continue (- 2, 8, 1, PTree PEmpty []), [DbgSubTLVSkipped 2]) \<and>
   (0 :: int) < 1 \<and> (1 :: int) \<le> 3"
proof -
  let ?B = "[5, 0, 3, 0, 2, 0, 1, 0, 2, 0, 1, 0, 2, 0, 1, 0, 2, 0, 1, 0] :: u8 list"
  have rd: "in_buf ?B 4 4"
    by (simp add: in_buf_def)
  have b1: "subtlv_body inet_ntop6 ?B 2 4 0 (PTree PEmpty []) =
      (Continue (- 2, 8, 1, PTree PEmpty []), [DbgSubTLVSkipped 2])"
    using subtlv_body_skip [OF rd, of inet_ntop6 2 0 "PTree PEmpty []"]
    by (simp add: subtlv_next_def uint_be16)
  from decode_loops_bounded [where inet_ntop = inet_ntop6 and buf = ?B and tlv_len = 2
      and data = 4 and tlv_cnt = 0 and pt = "PTree PEmpty []" and tlv_len' = "- 2" and data' = 8
      and tlv_cnt' = 1 and pt' = "PTree PEmpty []" and evs = "[DbgSubTLVSkipped 2]"] b1
  have "(0 :: int) < 1 \<and> (1 :: int) \<le> 3"
    by blast
  with b1 show ?thesis
    by (simp add: subtlv_loop_past_budget)
qed

subsection \<open>Sibling counters\<close>

lemma five_unrecognized:
  "concat (map wire_tlv [(99, 0, []), (99, 0, []), (99, 0, []), (99, 0, []), (99, 0, [])]) =
   [99, 0, 1, 0, 99, 0, 1, 0, 99, 0, 1, 0, 99, 0, 1, 0, 99, 0, 1, 0]"
  by (simp add: wire_tlv_def)

text \<open>
  Claim C3 as stated fails at the top level: \<open>parseBGPPrefixSIDAttr\<close> has no sibling
  counter, and five TLVs in an attribute of 20 bytes are all processed.
\<close>

theorem sibling_bound_counterexample:
  "snd (parseBGPPrefixSIDAttr inet_ntop6
          [99, 0, 1, 0, 99, 0, 1, 0, 99, 0, 1, 0, 99, 0, 1, 0, 99, 0, 1, 0] 20 0
          \<lparr>attr_prefix_sid = PTree PEmpty []\<rparr>) =
     [DbgTLVSkipped 99, DbgTLVSkipped 99, DbgTLVSkipped 99, DbgTLVSkipped 99, DbgTLVSkipped 99] \<and>
   tlvs_processed (snd (parseBGPPrefixSIDAttr inet_ntop6
          [99, 0, 1, 0, 99, 0, 1, 0, 99, 0, 1, 0, 99, 0, 1, 0, 99, 0, 1, 0] 20 0
          \<lparr>attr_prefix_sid = PTree PEmpty []\<rparr>)) = 5 \<and>
   \<not> tlvs_processed (snd (parseBGPPrefixSIDAttr inet_ntop6
          [99, 0, 1, 0, 99, 0, 1, 0, 99, 0, 1, 0, 99, 0, 1, 0, 99, 0, 1, 0] 20 0
          \<lparr>attr_prefix_sid = PTree PEmpty []\<rparr>)) \<le> 4"
proof -
  have "\<forall>t \<in> set ([(99, 0, []), (99, 0, []), (99, 0, []), (99, 0, []), (99, 0, [])] :: (u8 \<times> u8 \<times> u8 list) list).
      fst t \<noteq> 5 \<and> length (snd (snd t)) < 65535"
    by simp
  from attr_loop_unrecognized [OF this, of inet_ntop6 "[]" "[]" "PTree PEmpty []"]
  have "attr_loop inet_ntop6 [99, 0, 1, 0, 99, 0, 1, 0, 99, 0, 1, 0, 99, 0, 1, 0, 99, 0, 1, 0] 20 0
          (PTree PEmpty []) =
        (Inr (PTree PEmpty []),
         [DbgTLVSkipped 99, DbgTLVSkipped 99, DbgTLVSkipped 99, DbgTLVSkipped 99, DbgTLVSkipped 99])"
    unfolding five_unrecognized by simp
  then show ?thesis
    unfolding parseBGPPrefixSIDAttr_def by simp
qed

text \<open>
  Claim C3, amended. In \<open>parseSRv6L3ServiceTLV\<close> the counter \<open>tlv_cnt\<close> grows in every
  iteration of the sub-TLV loop, the loop breaks (with the tree accumulated so far and
  a diagnostic) exactly when the counter exceeds 3 and goes on only while it is at most
  3, so one call processes at most 4 sub-TLVs. The top-level loop of
  \<open>parseBGPPrefixSIDAttr\<close> has no sibling counter: an attribute of any number of
  unrecognized TLVs has all of them processed.
\<close>

theorem sibling_counter_of_subtlv_loop:
  "(subtlv_body inet_ntop buf tlv_len data tlv_cnt pt = (Continue (tlv_len', data', tlv_cnt', pt'), evs) \<longrightarrow>
      tlv_cnt < tlv_cnt' \<and> tlv_cnt' \<le> 3) \<and>
   (subtlv_body inet_ntop buf tlv_len data tlv_cnt pt = (Break (tlv_len', data', tlv_cnt', pt'), evs) \<longrightarrow>
      tlv_cnt < tlv_cnt' \<and> 3 < tlv_cnt' \<and>
      (tlv_len \<noteq> 0 \<longrightarrow> subtlv_loop inet_ntop buf tlv_len data tlv_cnt pt = (Inr pt', evs)) \<and>
      last evs = DbgTooMuchLoopTlv) \<and>
   subtlvs_processed (snd (parseSRv6L3ServiceTLV inet_ntop buf tlv_len data)) \<le> 4 \<and>
   ((\<forall>t \<in> set tlvs. fst t \<noteq> 5 \<and> length (snd (snd t)) < 65535) \<longrightarrow>
      tlvs_processed (snd (parseBGPPrefixSIDAttr inet_ntop (concat (map wire_tlv tlvs))
         (int (length (concat (map wire_tlv tlvs)))) 0 parsed_data)) = length tlvs)"
proof (intro conjI impI)
  show "tlv_cnt < tlv_cnt'" and "tlv_cnt' \<le> 3"
    if "subtlv_body inet_ntop buf tlv_len data tlv_cnt pt = (Continue (tlv_len', data', tlv_cnt', pt'), evs)"
    using subtlv_body_tlv_cnt [OF that] by simp_all
next
  assume b: "subtlv_body inet_ntop buf tlv_len data tlv_cnt pt = (Break (tlv_len', data', tlv_cnt', pt'), evs)"
  from subtlv_body_break [OF b] show "tlv_cnt < tlv_cnt'" and "3 < tlv_cnt'"
    by simp_all
  show "subtlv_loop inet_ntop buf tlv_len data tlv_cnt pt = (Inr pt', evs)" if "tlv_len \<noteq> 0"
    using that b by (rule subtlv_loop_break)
  from b show "last evs = DbgTooMuchLoopTlv"
    unfolding subtlv_body_def subtlv_next_def Let_def
    by (auto split: sum.splits prod.splits if_splits)
next
  show "subtlvs_processed (snd (parseSRv6L3ServiceTLV inet_ntop buf tlv_len data)) \<le> 4"
    using subtlv_loop_processed [of inet_ntop buf tlv_len data 0 "PTree PEmpty []"]
    unfolding parseSRv6L3ServiceTLV_def by simp
next
  assume "\<forall>t \<in> set tlvs. fst t \<noteq> 5 \<and> length (snd (snd t)) < 65535"
  from attr_loop_unrecognized [OF this, of inet_ntop "[]" "[]" "PTree PEmpty []"]
  have "snd (parseBGPPrefixSIDAttr inet_ntop (concat (map wire_tlv tlvs))
         (int (length (concat (map wire_tlv tlvs)))) 0 parsed_data) =
        map (\<lambda>t. DbgTLVSkipped (fst t)) tlvs"
    unfolding parseBGPPrefixSIDAttr_def by simp
  then show "tlvs_processed (snd (parseBGPPrefixSIDAttr inet_ntop (concat (map wire_tlv tlvs))
         (int (length (concat (map wire_tlv tlvs)))) 0 parsed_data)) = length tlvs"
    by (simp add: tlvs_processed_def filter_map comp_def)
qed

theorem sibling_counter_of_subtlv_loop_witness:
  "subtlv_body inet_ntop6 [5, 0, 3, 0, 2, 0, 1, 0, 2, 0, 1, 0, 2, 0, 1, 0, 2, 0, 1, 0] (- 10) 16 3
       (PTree PEmpty []) =
     (Break (- 14, 20, 4, PTree PEmpty []), [DbgSubTLVSkipped 2, DbgTooMuchLoopTlv]) \<and>
   subtlv_loop inet_ntop6 [5, 0, 3, 0, 2, 0, 1, 0, 2, 0, 1, 0, 2, 0, 1, 0, 2, 0, 1, 0] (- 10) 16 3
       (PTree PEmpty []) =
     (Inr (PTree PEmpty []), [DbgSubTLVSkipped 2, DbgTooMuchLoopTlv]) \<and>
   subtlvs_processed (snd (parseSRv6L3ServiceTLV inet_ntop6
       [5, 0, 3, 0, 2, 0, 1, 0, 2, 0, 1, 0, 2, 0, 1, 0, 2, 0, 1, 0] 2 4)) = 4"
proof -
  let ?B = "[5, 0, 3, 0, 2, 0, 1, 0, 2, 0, 1, 0, 2, 0, 1, 0, 2, 0, 1, 0] :: u8 list"
  have rd: "in_buf ?B 16 4"
    by (simp add: in_buf_def)
  have nz: "(- 10 :: int) \<noteq> 0"
    by simp
  have b4: "subtlv_body inet_ntop6 ?B (- 10) 16 3 (PTree PEmpty []) =
      (Break (- 14, 20, 4, PTree PEmpty []), [DbgSubTLVSkipped 2, DbgTooMuchLoopTlv])"
    using subtlv_body_skip [OF rd, of inet_ntop6 "- 10" 3 "PTree PEmpty []"]
    by (simp add: subtlv_next_def uint_be16)
  from sibling_counter_of_subtlv_loop [where inet_ntop = inet_ntop6 and buf = ?B
      and tlv_len = "- 10" and data = 16 and tlv_cnt = 3 and pt = "PTree PEmpty []"
      and tlv_len' = "- 14" and data' = 20 and tlv_cnt' = 4 and pt' = "PTree PEmpty []"
      and evs = "[DbgSubTLVSkipped 2, DbgTooMuchLoopTlv]" and tlvs = "[]"
      and parsed_data = "\<lparr>attr_prefix_sid = PTree PEmpty []\<rparr>"] b4 nz
  have "subtlv_loop inet_ntop6 ?B (- 10) 16 3 (PTree PEmpty []) =
      (Inr (PTree PEmpty []), [DbgSubTLVSkipped 2, DbgTooMuchLoopTlv])"
    by blast
  with b4 show ?thesis
    by (simp add: subtlv_loop_past_budget)
qed

subsection \<open>The length budget\<close>

lemma subsubtlv_body_consumes:
  assumes "subsubtlv_body buf subtlv_len sub_data subtlv_cnt tlv_cnt sub_pt = (x, evs)"
    and "x = Continue (l, d, c, t, p) \<or> x = Break (l, d, c, t, p)"
  shows "l = subtlv_len - (uint (be16 buf (sub_data + 1)) + 3) \<and>
         d = sub_data + (uint (be16 buf (sub_data + 1)) + 3)"
proof (cases "in_buf buf sub_data 4")
  case False
  from subsubtlv_body_fault [OF this] assms show ?thesis
    by auto
next
  case True
  from assms show ?thesis
    unfolding subsubtlv_body_def read_header_in_buf [OF True] subsubtlv_next_def Let_def
    by (auto split: sum.splits prod.splits if_splits)
qed

text \<open>The budget only passes through a body: no outcome depends on it.\<close>

lemma attr_body_budget:
  "attr_body inet_ntop buf attr_len2 data pt =
     (case attr_body inet_ntop buf attr_len data pt of
        (Continue (a, d, p), evs) \<Rightarrow> (Continue (a + (attr_len2 - attr_len), d, p), evs)
      | (x, evs) \<Rightarrow> (x, evs))"
  unfolding attr_body_def Let_def
  by (auto split: sum.splits prod.splits step.splits)

lemma subtlv_body_budget:
  "subtlv_body inet_ntop buf tlv_len2 data tlv_cnt pt =
     (case subtlv_body inet_ntop buf tlv_len data tlv_cnt pt of
        (Continue (l, d, c, p), evs) \<Rightarrow> (Continue (l + (tlv_len2 - tlv_len), d, c, p), evs)
      | (Break (l, d, c, p), evs) \<Rightarrow> (Break (l + (tlv_len2 - tlv_len), d, c, p), evs)
      | (Fault, evs) \<Rightarrow> (Fault, evs))"
  unfolding subtlv_body_def subtlv_next_def Let_def
  by (auto split: sum.splits prod.splits step.splits)

lemma subsubtlv_body_budget:
  "subsubtlv_body buf subtlv_len2 sub_data subtlv_cnt tlv_cnt sub_pt =
     (case subsubtlv_body buf subtlv_len sub_data subtlv_cnt tlv_cnt sub_pt of
        (Continue (l, d, c, t, p), evs) \<Rightarrow> (Continue (l + (subtlv_len2 - subtlv_len), d, c, t, p), evs)
      | (Break (l, d, c, t, p), evs) \<Rightarrow> (Break (l + (subtlv_len2 - subtlv_len), d, c, t, p), evs)
      | (Fault, evs) \<Rightarrow> (Fault, evs))"
  unfolding subsubtlv_body_def subsubtlv_next_def Let_def
  by (auto split: sum.splits prod.splits step.splits)

text \<open>
  Claim C2 as stated fails at the sub-TLV level. The attribute is the six bytes
  \<open>5, 0, 3, 0, 2, 0\<close>: a TLV of type 5 whose value has two bytes. The first sub-TLV
  needs four bytes for its header alone, more than the budget \<open>tlv_len = 2\<close>. Nothing
  detects this: \<open>tlv_len\<close> becomes \<open>-2\<close>, which the condition \<open>tlv_len \<noteq> 0\<close> accepts,
  and the loop takes three more sub-TLVs out of the bytes behind the attribute, until
  the sibling counter breaks it.
\<close>

theorem negative_budget_counterexample:
  "parseBGPPrefixSIDAttr inet_ntop6
       [5, 0, 3, 0, 2, 0, 1, 0, 2, 0, 1, 0, 2, 0, 1, 0, 2, 0, 1, 0] 6 0
       \<lparr>attr_prefix_sid = PTree PEmpty []\<rparr> =
     (Inr \<lparr>attr_prefix_sid = PTree PEmpty [(''srv6_l3_service'', PTree PEmpty [])]\<rparr>,
      [DbgL3ServiceTLV, DbgSubTLVSkipped 2, DbgSubTLVSkipped 2, DbgSubTLVSkipped 2,
       DbgSubTLVSkipped 2, DbgTooMuchLoopTlv]) \<and>
   subtlv_body inet_ntop6 [5, 0, 3, 0, 2, 0, 1, 0, 2, 0, 1, 0, 2, 0, 1, 0, 2, 0, 1, 0] 2 4 0
       (PTree PEmpty []) =
     (Continue (- 2, 8, 1, PTree PEmpty []), [DbgSubTLVSkipped 2]) \<and>
   subtlvs_processed (snd (subtlv_loop inet_ntop6
       [5, 0, 3, 0, 2, 0, 1, 0, 2, 0, 1, 0, 2, 0, 1, 0, 2, 0, 1, 0] (- 2) 8 1 (PTree PEmpty []))) = 3"
proof -
  let ?B = "[5, 0, 3, 0, 2, 0, 1, 0, 2, 0, 1, 0, 2, 0, 1, 0, 2, 0, 1, 0] :: u8 list"
  let ?e = "PTree PEmpty []"
  have rd: "in_buf ?B 0 4" "in_buf ?B 4 4"
    by (simp_all add: in_buf_def)
  have len: "uint (be16 ?B 1) = 3" "uint (be16 ?B 5) = 1"
    by (simp_all add: uint_be16)
  have "attr_body inet_ntop6 ?B 6 0 ?e =
      (Continue (0, 6, PTree PEmpty [(''srv6_l3_service'', ?e)]),
       [DbgL3ServiceTLV, DbgSubTLVSkipped 2, DbgSubTLVSkipped 2, DbgSubTLVSkipped 2,
        DbgSubTLVSkipped 2, DbgTooMuchLoopTlv])"
    using attr_body_l3_service [OF rd(1), of inet_ntop6 6 ?e]
    by (simp add: len subtlv_loop_past_budget add_child_def)
  from attr_loop_continue [OF _ this]
  have whole: "attr_loop inet_ntop6 ?B 6 0 ?e =
      (Inr (PTree PEmpty [(''srv6_l3_service'', ?e)]),
       [DbgL3ServiceTLV, DbgSubTLVSkipped 2, DbgSubTLVSkipped 2, DbgSubTLVSkipped 2,
        DbgSubTLVSkipped 2, DbgTooMuchLoopTlv])"
    by (simp add: attr_loop_stop)
  have first: "subtlv_body inet_ntop6 ?B 2 4 0 ?e = (Continue (- 2, 8, 1, ?e), [DbgSubTLVSkipped 2])"
    using subtlv_body_skip [OF rd(2), of inet_ntop6 2 0 ?e] by (simp add: subtlv_next_def len)
  from subtlv_loop_continue [OF _ first] subtlv_loop_past_budget [of inet_ntop6]
  have "snd (subtlv_loop inet_ntop6 ?B (- 2) 8 1 ?e) =
      [DbgSubTLVSkipped 2, DbgSubTLVSkipped 2, DbgSubTLVSkipped 2, DbgTooMuchLoopTlv]"
    unfolding parseSRv6L3ServiceTLV_def by simp
  with whole first show ?thesis
    unfolding parseBGPPrefixSIDAttr_def by simp
qed

text \<open>
  Claim C2, amended. At the attribute level and at the sub-sub-TLV level, a child
  whose declared on-wire size, \<open>length + 3\<close>, is at least the remaining budget ends the
  walk of that level: the child is decoded with its declared length first, the budget
  then is zero or negative, and the loop, whose condition is \<open>> 0\<close>, returns what it has
  accumulated. No level compares a declared length with its budget: a body passes the
  budget through, and its reads, its tree and its diagnostics are the same for every
  budget.
\<close>

theorem exhausted_budget_ends_level:
  "(0 < attr_len \<and> attr_len \<le> uint (be16 buf (data + 1)) + 3 \<and>
    attr_body inet_ntop buf attr_len data pt = (Continue (attr_len', data', pt'), evs) \<longrightarrow>
      attr_len' \<le> 0 \<and> attr_loop inet_ntop buf attr_len data pt = (Inr pt', evs)) \<and>
   (0 < subtlv_len \<and> subtlv_len \<le> uint (be16 buf (sub_data + 1)) + 3 \<and>
    subsubtlv_body buf subtlv_len sub_data subtlv_cnt tlv_cnt sub_pt =
      (Continue (subtlv_len', sub_data', subtlv_cnt', tlv_cnt', sub_pt'), evs) \<longrightarrow>
      subtlv_len' \<le> 0 \<and>
      subsubtlv_loop buf subtlv_len sub_data subtlv_cnt tlv_cnt sub_pt = (Inr (tlv_cnt', sub_pt'), evs)) \<and>
   attr_body inet_ntop buf attr_len2 data pt =
     (case attr_body inet_ntop buf attr_len data pt of
        (Continue (a, d, p), evs) \<Rightarrow> (Continue (a + (attr_len2 - attr_len), d, p), evs)
      | (x, evs) \<Rightarrow> (x, evs)) \<and>
   subtlv_body inet_ntop buf tlv_len2 data tlv_cnt pt =
     (case subtlv_body inet_ntop buf tlv_len data tlv_cnt pt of
        (Continue (l, d, c, p), evs) \<Rightarrow> (Continue (l + (tlv_len2 - tlv_len), d, c, p), evs)
      | (Break (l, d, c, p), evs) \<Rightarrow> (Break (l + (tlv_len2 - tlv_len), d, c, p), evs)
      | (Fault, evs) \<Rightarrow> (Fault, evs)) \<and>
   subsubtlv_body buf subtlv_len2 sub_data subtlv_cnt tlv_cnt sub_pt =
     (case subsubtlv_body buf subtlv_len sub_data subtlv_cnt tlv_cnt sub_pt of
        (Continue (l, d, c, t, p), evs) \<Rightarrow> (Continue (l + (subtlv_len2 - subtlv_len), d, c, t, p), evs)
      | (Break (l, d, c, t, p), evs) \<Rightarrow> (Break (l + (subtlv_len2 - subtlv_len), d, c, t, p), evs)
      | (Fault, evs) \<Rightarrow> (Fault, evs))"
proof (intro conjI impI; (elim conjE)?)
  assume pos: "0 < attr_len" and over: "attr_len \<le> uint (be16 buf (data + 1)) + 3"
    and body: "attr_body inet_ntop buf attr_len data pt = (Continue (attr_len', data', pt'), evs)"
  from attr_body_consumes [OF body] over show stop: "attr_len' \<le> 0"
    by simp
  from attr_loop_continue [OF pos body] attr_loop_stop [OF stop]
  show "attr_loop inet_ntop buf attr_len data pt = (Inr pt', evs)"
    by simp
next
  assume pos: "0 < subtlv_len" and over: "subtlv_len \<le> uint (be16 buf (sub_data + 1)) + 3"
    and body: "subsubtlv_body buf subtlv_len sub_data subtlv_cnt tlv_cnt sub_pt =
      (Continue (subtlv_len', sub_data', subtlv_cnt', tlv_cnt', sub_pt'), evs)"
  from subsubtlv_body_consumes [OF body] over show stop: "subtlv_len' \<le> 0"
    by simp
  from subsubtlv_loop_continue [OF pos body] subsubtlv_loop_stop [OF stop]
  show "subsubtlv_loop buf subtlv_len sub_data subtlv_cnt tlv_cnt sub_pt = (Inr (tlv_cnt', sub_pt'), evs)"
    by simp
next
  show "attr_body inet_ntop buf attr_len2 data pt =
     (case attr_body inet_ntop buf attr_len data pt of
        (Continue (a, d, p), evs) \<Rightarrow> (Continue (a + (attr_len2 - attr_len), d, p), evs)
      | (x, evs) \<Rightarrow> (x, evs))"
    by (rule attr_body_budget)
  show "subtlv_body inet_ntop buf tlv_len2 data tlv_cnt pt =
     (case subtlv_body inet_ntop buf tlv_len data tlv_cnt pt of
        (Continue (l, d, c, p), evs) \<Rightarrow> (Continue (l + (tlv_len2 - tlv_len), d, c, p), evs)
      | (Break (l, d, c, p), evs) \<Rightarrow> (Break (l + (tlv_len2 - tlv_len), d, c, p), evs)
      | (Fault, evs) \<Rightarrow> (Fault, evs))"
    by (rule subtlv_body_budget)
  show "subsubtlv_body buf subtlv_len2 sub_data subtlv_cnt tlv_cnt sub_pt =
     (case subsubtlv_body buf subtlv_len sub_data subtlv_cnt tlv_cnt sub_pt of
        (Continue (l, d, c, t, p), evs) \<Rightarrow> (Continue (l + (subtlv_len2 - subtlv_len), d, c, t, p), evs)
      | (Break (l, d, c, t, p), evs) \<Rightarrow> (Break (l + (subtlv_len2 - subtlv_len), d, c, t, p), evs)
      | (Fault, evs) \<Rightarrow> (Fault, evs))"
    by (rule subsubtlv_body_budget)
qed

theorem exhausted_budget_ends_level_witness:
  "attr_body inet_ntop6 [5, 0, 5, 0, 2, 0, 1, 0, 2, 0, 9, 0] 4 0 (PTree PEmpty []) =
     (Continue (- 4, 8, PTree PEmpty [(''srv6_l3_service'', PTree PEmpty [])]),
      [DbgL3ServiceTLV, DbgSubTLVSkipped 2]) \<and>
   attr_loop inet_ntop6 [5, 0, 5, 0, 2, 0, 1, 0, 2, 0, 9, 0] 4 0 (PTree PEmpty []) =
     (Inr (PTree PEmpty [(''srv6_l3_service'', PTree PEmpty [])]),
      [DbgL3ServiceTLV, DbgSubTLVSkipped 2]) \<and>
   subsubtlv_body [5, 0, 5, 0, 2, 0, 1, 0, 2, 0, 9, 0] 3 8 0 0 (PTree PEmpty []) =
     (Continue (- 9, 20, 1, 0, PTree PEmpty []), [DbgSubSubTLVSkipped 2]) \<and>
   subsubtlv_loop [5, 0, 5, 0, 2, 0, 1, 0, 2, 0, 9, 0] 3 8 0 0 (PTree PEmpty []) =
     (Inr (0, PTree PEmpty []), [DbgSubSubTLVSkipped 2])"
proof -
  let ?B = "[5, 0, 5, 0, 2, 0, 1, 0, 2, 0, 9, 0] :: u8 list"
  let ?e = "PTree PEmpty []"
  have rd: "in_buf ?B 0 4" "in_buf ?B 4 4" "in_buf ?B 8 4"
    by (simp_all add: in_buf_def)
  have len: "uint (be16 ?B 1) = 5" "uint (be16 ?B 5) = 1" "uint (be16 ?B 9) = 9"
    "uint (be16 ?B (0 + 1)) = 5" "uint (be16 ?B (8 + 1)) = 9"
    by (simp_all add: uint_be16)
  \<comment> \<open>the TLV declares 8 bytes on the wire, the attribute has 4; its sub-TLV is read all the same\<close>
  have "subtlv_body inet_ntop6 ?B 4 4 0 ?e = (Continue (0, 8, 1, ?e), [DbgSubTLVSkipped 2])"
    using subtlv_body_skip [OF rd(2), of inet_ntop6 4 0 ?e] by (simp add: subtlv_next_def len)
  from subtlv_loop_continue [OF _ this]
  have "parseSRv6L3ServiceTLV inet_ntop6 ?B 4 4 = (Inr ?e, [DbgSubTLVSkipped 2])"
    unfolding parseSRv6L3ServiceTLV_def by (simp add: subtlv_loop_stop)
  then have a: "attr_body inet_ntop6 ?B 4 0 ?e =
      (Continue (- 4, 8, PTree PEmpty [(''srv6_l3_service'', ?e)]),
       [DbgL3ServiceTLV, DbgSubTLVSkipped 2])"
    using attr_body_l3_service [OF rd(1), of inet_ntop6 4 ?e] by (simp add: len add_child_def)
  have s: "subsubtlv_body ?B 3 8 0 0 ?e = (Continue (- 9, 20, 1, 0, ?e), [DbgSubSubTLVSkipped 2])"
    using subsubtlv_body_skip [OF rd(3), of 3 0 0 ?e] by (simp add: subsubtlv_next_def len)
  have budget: "(0 :: int) < 4 \<and> (4 :: int) \<le> uint (be16 ?B (0 + 1)) + 3"
    "(0 :: int) < 3 \<and> (3 :: int) \<le> uint (be16 ?B (8 + 1)) + 3"
    unfolding len by simp_all
  from exhausted_budget_ends_level [where inet_ntop = inet_ntop6 and buf = ?B and attr_len = 4
      and data = 0 and pt = ?e and attr_len' = "- 4" and data' = 8
      and pt' = "PTree PEmpty [(''srv6_l3_service'', ?e)]"
      and evs = "[DbgL3ServiceTLV, DbgSubTLVSkipped 2]"] a budget(1)
  have "attr_loop inet_ntop6 ?B 4 0 ?e =
      (Inr (PTree PEmpty [(''srv6_l3_service'', ?e)]), [DbgL3ServiceTLV, DbgSubTLVSkipped 2])"
    by blast
  moreover
  from exhausted_budget_ends_level [where buf = ?B and subtlv_len = 3 and sub_data = 8
      and subtlv_cnt = 0 and tlv_cnt = 0 and sub_pt = ?e and subtlv_len' = "- 9"
      and sub_data' = 20 and subtlv_cnt' = 1 and tlv_cnt' = 0 and sub_pt' = ?e
      and evs = "[DbgSubSubTLVSkipped 2]"] s budget(2)
  have "subsubtlv_loop ?B 3 8 0 0 ?e = (Inr (0, ?e), [DbgSubSubTLVSkipped 2])"
    by blast
  ultimately show ?thesis
    using a s by simp
qed

subsection \<open>Truncated buffers\<close>

lemma in_buf_take: "in_buf (take n buf) data sz \<Longrightarrow> in_buf buf data sz"
  unfolding in_buf_def by auto

lemma nth_take_in_buf:
  assumes "in_buf (take n buf) data sz" and "i < sz"
  shows "take n buf ! (nat data + i) = buf ! (nat data + i)"
proof -
  from assms have "nat data + i < length (take n buf)"
    unfolding in_buf_def by auto
  then show ?thesis
    by simp
qed

lemma readData_take:
  "readData (take n buf) data sz h = Inl Overread \<or>
   readData (take n buf) data sz h = readData buf data sz h"
proof (cases "in_buf (take n buf) data sz")
  case False
  then show ?thesis
    by (simp add: readData_def)
next
  case True
  then have "map (\<lambda>i. take n buf ! (nat data + i)) [0..<sz] = map (\<lambda>i. buf ! (nat data + i)) [0..<sz]"
    by (intro map_cong refl nth_take_in_buf) simp_all
  moreover from True
  have "map (\<lambda>i. take n buf ! (nat data + i)) (rev [0..<sz]) = map (\<lambda>i. buf ! (nat data + i)) (rev [0..<sz])"
    by (intro map_cong refl nth_take_in_buf) simp_all
  ultimately show ?thesis
    using True in_buf_take [OF True] unfolding readData_def by simp
qed

lemma deref_run_take:
  "deref_run (take n buf) p k = Inl Overread \<or> deref_run (take n buf) p k = deref_run buf p k"
proof (cases "in_buf (take n buf) p k")
  case False
  then show ?thesis
    by (simp add: deref_run_def)
next
  case True
  then have "map (\<lambda>i. take n buf ! (nat p + i)) [0..<k] = map (\<lambda>i. buf ! (nat p + i)) [0..<k]"
    by (intro map_cong refl nth_take_in_buf) simp_all
  then show ?thesis
    using True in_buf_take [OF True] unfolding deref_run_def by simp
qed

lemma read_header_take:
  "read_header (take n buf) data = Inl Overread \<or> read_header (take n buf) data = read_header buf data"
  using readData_take [of n buf data 1 True] readData_take [of n buf "data + 1" 2 True]
    readData_take [of n buf "data + 3" 1 True]
  unfolding read_header_def by (auto split: sum.splits)

lemma read_sid_information_take:
  "read_sid_information (take n buf) data = Inl Overread \<or>
   read_sid_information (take n buf) data = read_sid_information buf data"
  using readData_take [of n buf data 16 False] readData_take [of n buf "data + 16" 1 True]
    readData_take [of n buf "data + 17" 2 True] readData_take [of n buf "data + 19" 1 True]
  unfolding read_sid_information_def by (auto split: sum.splits)

lemma sid_structure_case_take:
  "fst (sid_structure_case (take n buf) p sub_pt) = Inl Overread \<or>
   sid_structure_case (take n buf) p sub_pt = sid_structure_case buf p sub_pt"
  using deref_run_take [of n buf p 6]
  unfolding sid_structure_case_def by (auto split: sum.splits)

lemma subsubtlv_body_take:
  "fst (subsubtlv_body (take n buf) subtlv_len sub_data subtlv_cnt tlv_cnt sub_pt) = Fault \<or>
   subsubtlv_body (take n buf) subtlv_len sub_data subtlv_cnt tlv_cnt sub_pt =
   subsubtlv_body buf subtlv_len sub_data subtlv_cnt tlv_cnt sub_pt"
  using read_header_take [of n buf sub_data] sid_structure_case_take [of n buf "sub_data + 4" sub_pt]
  unfolding subsubtlv_body_def Let_def
  by (auto split: sum.splits prod.splits)

lemma subsubtlv_loop_take:
  "fst (subsubtlv_loop (take n buf) subtlv_len sub_data subtlv_cnt tlv_cnt sub_pt) = Inl Overread \<or>
   subsubtlv_loop (take n buf) subtlv_len sub_data subtlv_cnt tlv_cnt sub_pt =
   subsubtlv_loop buf subtlv_len sub_data subtlv_cnt tlv_cnt sub_pt"
proof (induction subtlv_len sub_data subtlv_cnt tlv_cnt sub_pt
    rule: subsubtlv_loop_cases [where buf = "take n buf"])
  case (stop subtlv_len sub_data subtlv_cnt tlv_cnt sub_pt)
  then show ?case
    by (simp add: subsubtlv_loop_stop)
next
  case (fault subtlv_len sub_data subtlv_cnt tlv_cnt sub_pt evs)
  then show ?case
    by (simp add: subsubtlv_loop_fault)
next
  case (break subtlv_len sub_data subtlv_cnt tlv_cnt sub_pt subtlv_len' sub_data' subtlv_cnt' tlv_cnt' sub_pt' evs)
  from subsubtlv_body_take [of n buf subtlv_len sub_data subtlv_cnt tlv_cnt sub_pt] break(2)
  have "subsubtlv_body buf subtlv_len sub_data subtlv_cnt tlv_cnt sub_pt =
      (Break (subtlv_len', sub_data', subtlv_cnt', tlv_cnt', sub_pt'), evs)"
    by simp
  from subsubtlv_loop_break [OF break(1) this] subsubtlv_loop_break [OF break(1,2)]
  show ?case
    by simp
next
  case (continue subtlv_len sub_data subtlv_cnt tlv_cnt sub_pt subtlv_len' sub_data' subtlv_cnt' tlv_cnt' sub_pt' evs)
  from subsubtlv_body_take [of n buf subtlv_len sub_data subtlv_cnt tlv_cnt sub_pt] continue(2)
  have "subsubtlv_body buf subtlv_len sub_data subtlv_cnt tlv_cnt sub_pt =
      (Continue (subtlv_len', sub_data', subtlv_cnt', tlv_cnt', sub_pt'), evs)"
    by simp
  from subsubtlv_loop_continue [OF continue(1) this] subsubtlv_loop_continue [OF continue(1,2)]
    continue(3)
  show ?case
    by auto
qed

lemma sid_information_case_take:
  "fst (sid_information_case inet_ntop (take n buf) subtlv sub_data tlv_cnt pt) = Inl Overread \<or>
   sid_information_case inet_ntop (take n buf) subtlv sub_data tlv_cnt pt =
   sid_information_case inet_ntop buf subtlv sub_data tlv_cnt pt"
proof (cases "read_sid_information (take n buf) sub_data")
  case (Inl e)
  then show ?thesis
    unfolding sid_information_case_def by simp
next
  case (Inr info)
  with read_sid_information_take [of n buf sub_data]
  have full: "read_sid_information buf sub_data = Inr info"
    by simp
  from subsubtlv_loop_take [of n buf "uint (gt_len subtlv) - 21" "sub_data + 20" 0 tlv_cnt
      "sid_information_tree inet_ntop info"]
  show ?thesis
    unfolding sid_information_case_def Inr full Let_def
    by (auto split: prod.splits sum.splits)
qed

lemma subtlv_body_take:
  "fst (subtlv_body inet_ntop (take n buf) tlv_len data tlv_cnt pt) = Fault \<or>
   subtlv_body inet_ntop (take n buf) tlv_len data tlv_cnt pt =
   subtlv_body inet_ntop buf tlv_len data tlv_cnt pt"
proof (cases "read_header (take n buf) data")
  case (Inl e)
  then show ?thesis
    unfolding subtlv_body_def by simp
next
  case (Inr subtlv)
  with read_header_take [of n buf data] have full: "read_header buf data = Inr subtlv"
    by simp
  from sid_information_case_take [of inet_ntop n buf subtlv "data + 4" tlv_cnt pt]
  show ?thesis
    unfolding subtlv_body_def Inr full Let_def
    by (auto split: prod.splits sum.splits)
qed

lemma subtlv_loop_take:
  "fst (subtlv_loop inet_ntop (take n buf) tlv_len data tlv_cnt pt) = Inl Overread \<or>
   subtlv_loop inet_ntop (take n buf) tlv_len data tlv_cnt pt =
   subtlv_loop inet_ntop buf tlv_len data tlv_cnt pt"
proof (induction tlv_len data tlv_cnt pt
    rule: subtlv_loop_cases [where inet_ntop = inet_ntop and buf = "take n buf"])
  case (stop data tlv_cnt pt)
  then show ?case
    by (simp add: subtlv_loop_stop)
next
  case (fault tlv_len data tlv_cnt pt evs)
  then show ?case
    by (simp add: subtlv_loop_fault)
next
  case (break tlv_len data tlv_cnt pt tlv_len' data' tlv_cnt' pt' evs)
  from subtlv_body_take [of inet_ntop n buf tlv_len data tlv_cnt pt] break(2)
  have "subtlv_body inet_ntop buf tlv_len data tlv_cnt pt = (Break (tlv_len', data', tlv_cnt', pt'), evs)"
    by simp
  from subtlv_loop_break [OF break(1) this] subtlv_loop_break [OF break(1,2)]
  show ?case
    by simp
next
  case (continue tlv_len data tlv_cnt pt tlv_len' data' tlv_cnt' pt' evs)
  from subtlv_body_take [of inet_ntop n buf tlv_len data tlv_cnt pt] continue(2)
  have "subtlv_body inet_ntop buf tlv_len data tlv_cnt pt = (Continue (tlv_len', data', tlv_cnt', pt'), evs)"
    by simp
  from subtlv_loop_continue [OF continue(1) this] subtlv_loop_continue [OF continue(1,2)]
    continue(3)
  show ?case
    by auto
qed

lemma attr_body_take:
  "fst (attr_body inet_ntop (take n buf) attr_len data pt) = Fault \<or>
   attr_body inet_ntop (take n buf) attr_len data pt = attr_body inet_ntop buf attr_len data pt"
proof (cases "read_header (take n buf) data")
  case (Inl e)
  then show ?thesis
    unfolding attr_body_def by simp
next
  case (Inr tlv)
  with read_header_take [of n buf data] have full: "read_header buf data = Inr tlv"
    by simp
  from subtlv_loop_take [of inet_ntop n buf "uint (gt_len tlv) - 1" "data + 4" 0 "PTree PEmpty []"]
  show ?thesis
    unfolding attr_body_def Inr full Let_def parseSRv6L3ServiceTLV_def
    by (auto split: prod.splits sum.splits)
qed

lemma attr_loop_take:
  "fst (attr_loop inet_ntop (take n buf) attr_len data pt) = Inl Overread \<or>
   attr_loop inet_ntop (take n buf) attr_len data pt = attr_loop inet_ntop buf attr_len data pt"
proof (induction attr_len data pt
    rule: attr_loop_cases [where inet_ntop = inet_ntop and buf = "take n buf"])
  case (stop attr_len data pt)
  then show ?case
    by (simp add: attr_loop_stop)
next
  case (fault attr_len data pt evs)
  then show ?case
    by (simp add: attr_loop_fault)
next
  case (continue attr_len data pt attr_len' data' pt' evs)
  from attr_body_take [of inet_ntop n buf attr_len data pt] continue(2)
  have "attr_body inet_ntop buf attr_len data pt = (Continue (attr_len', data', pt'), evs)"
    by simp
  from attr_loop_continue [OF continue(1) this] attr_loop_continue [OF continue(1,2)] continue(3)
  show ?case
    by auto
qed

text \<open>
  Claim C1 as stated fails. The attribute \<open>5, 0, 1, 0\<close> decodes to a tree with one
  empty \<open>srv6_l3_service\<close> child. Cut after its third byte, with the declared length 4
  or 3, it is not decoded to a smaller tree: the loop reads the four header bytes
  whenever \<open>attr_len > 0\<close>, and the read of the reserved byte at offset 3 is outside
  the buffer.
\<close>

theorem truncation_counterexample:
  "parseBGPPrefixSIDAttr inet_ntop6 [5, 0, 1, 0] 4 0 \<lparr>attr_prefix_sid = PTree PEmpty []\<rparr> =
     (Inr \<lparr>attr_prefix_sid = PTree PEmpty [(''srv6_l3_service'', PTree PEmpty [])]\<rparr>,
      [DbgL3ServiceTLV]) \<and>
   parseBGPPrefixSIDAttr inet_ntop6 (take 3 [5, 0, 1, 0]) 4 0 \<lparr>attr_prefix_sid = PTree PEmpty []\<rparr> =
     (Inl Overread, []) \<and>
   parseBGPPrefixSIDAttr inet_ntop6 (take 3 [5, 0, 1, 0]) 3 0 \<lparr>attr_prefix_sid = PTree PEmpty []\<rparr> =
     (Inl Overread, []) \<and>
   readData (take 3 [5, 0, 1, 0]) 3 1 True = Inl Overread"
proof -
  have short: "take 3 [5, 0, 1, 0 :: u8] = [5, 0, 1]"
    by (simp add: eval_nat_numeral)
  have "\<not> in_buf [5, 0, 1 :: u8] 0 4"
    by (simp add: in_buf_def)
  from attr_body_fault [OF this]
  have "attr_loop inet_ntop6 [5, 0, 1] 4 0 (PTree PEmpty []) = (Inl Overread, [])"
    "attr_loop inet_ntop6 [5, 0, 1] 3 0 (PTree PEmpty []) = (Inl Overread, [])"
    by (simp_all add: attr_loop_fault)
  then show ?thesis
    unfolding short parseBGPPrefixSIDAttr_def attr_loop_single_empty_l3
    by (simp add: readData_def in_buf_def)
qed

text \<open>
  Claim C1, amended. \<open>readData\<close> checks no bound: a read of \<open>n > 0\<close> bytes at an
  offset with fewer than \<open>n\<close> bytes behind it reads outside the buffer (undefined
  behaviour in the C++, the outcome \<open>Overread\<close> here), and exactly such reads do.
  For every buffer, declared length and cut, decoding the truncated buffer either
  reads outside it or gives the very result, tree and diagnostics, of decoding the
  whole buffer; it never returns a smaller tree. The same holds for
  \<open>parseSRv6L3ServiceTLV\<close>.
\<close>

theorem truncation_overreads_or_agrees:
  "(readData buf data sz h = Inl Overread \<longleftrightarrow>
      sz \<noteq> 0 \<and> (data < 0 \<or> int (length buf) < data + int sz)) \<and>
   (fst (parseBGPPrefixSIDAttr inet_ntop (take n buf) attr_len data parsed_data) = Inl Overread \<or>
    parseBGPPrefixSIDAttr inet_ntop (take n buf) attr_len data parsed_data =
    parseBGPPrefixSIDAttr inet_ntop buf attr_len data parsed_data) \<and>
   (fst (parseSRv6L3ServiceTLV inet_ntop (take n buf) tlv_len data) = Inl Overread \<or>
    parseSRv6L3ServiceTLV inet_ntop (take n buf) tlv_len data =
    parseSRv6L3ServiceTLV inet_ntop buf tlv_len data)"
proof (intro conjI)
  show "readData buf data sz h = Inl Overread \<longleftrightarrow>
      sz \<noteq> 0 \<and> (data < 0 \<or> int (length buf) < data + int sz)"
    unfolding readData_def in_buf_def by auto
  from attr_loop_take [of inet_ntop n buf attr_len data "PTree PEmpty []"]
  show "fst (parseBGPPrefixSIDAttr inet_ntop (take n buf) attr_len data parsed_data) = Inl Overread \<or>
    parseBGPPrefixSIDAttr inet_ntop (take n buf) attr_len data parsed_data =
    parseBGPPrefixSIDAttr inet_ntop buf attr_len data parsed_data"
    unfolding parseBGPPrefixSIDAttr_def by (auto split: prod.splits sum.splits)
  from subtlv_loop_take [of inet_ntop n buf tlv_len data 0 "PTree PEmpty []"]
  show "fst (parseSRv6L3ServiceTLV inet_ntop (take n buf) tlv_len data) = Inl Overread \<or>
    parseSRv6L3ServiceTLV inet_ntop (take n buf) tlv_len data =
    parseSRv6L3ServiceTLV inet_ntop buf tlv_len data"
    unfolding parseSRv6L3ServiceTLV_def .
qed

theorem truncation_overreads_or_agrees_witness:
  "parseBGPPrefixSIDAttr inet_ntop6 (take 4 [5, 0, 1, 0, 99, 0, 1, 0]) 4 0
       \<lparr>attr_prefix_sid = PTree PEmpty []\<rparr> =
   parseBGPPrefixSIDAttr inet_ntop6 [5, 0, 1, 0, 99, 0, 1, 0] 4 0
       \<lparr>attr_prefix_sid = PTree PEmpty []\<rparr> \<and>
   fst (parseBGPPrefixSIDAttr inet_ntop6 (take 4 [5, 0, 1, 0, 99, 0, 1, 0]) 4 0
       \<lparr>attr_prefix_sid = PTree PEmpty []\<rparr>) =
     Inr \<lparr>attr_prefix_sid = PTree PEmpty [(''srv6_l3_service'', PTree PEmpty [])]\<rparr> \<and>
   readData [5, 0, 1, 0, 99, 0, 1, 0] 7 2 True = Inl Overread"
proof -
  have short: "take 4 [5, 0, 1, 0, 99, 0, 1, 0 :: u8] = [5, 0, 1, 0]"
    by (simp add: eval_nat_numeral)
  have tree: "parseBGPPrefixSIDAttr inet_ntop6 [5, 0, 1, 0] 4 0 \<lparr>attr_prefix_sid = PTree PEmpty []\<rparr> =
     (Inr \<lparr>attr_prefix_sid = PTree PEmpty [(''srv6_l3_service'', PTree PEmpty [])]\<rparr>,
      [DbgL3ServiceTLV])"
    unfolding parseBGPPrefixSIDAttr_def attr_loop_single_empty_l3 by simp
  have over: "readData [5, 0, 1, 0, 99, 0, 1, 0 :: u8] 7 2 True = Inl Overread"
    using truncation_overreads_or_agrees [where buf = "[5, 0, 1, 0, 99, 0, 1, 0]" and data = 7
        and sz = 2 and h = True, THEN conjunct1]
    by simp
  from truncation_overreads_or_agrees [where buf = "[5, 0, 1, 0, 99, 0, 1, 0]" and data = 0
      and inet_ntop = inet_ntop6 and n = 4 and attr_len = 4
      and parsed_data = "\<lparr>attr_prefix_sid = PTree PEmpty []\<rparr>",
      THEN conjunct2, THEN conjunct1]
  have "parseBGPPrefixSIDAttr inet_ntop6 (take 4 [5, 0, 1, 0, 99, 0, 1, 0]) 4 0
       \<lparr>attr_prefix_sid = PTree PEmpty []\<rparr> =
     parseBGPPrefixSIDAttr inet_ntop6 [5, 0, 1, 0, 99, 0, 1, 0] 4 0
       \<lparr>attr_prefix_sid = PTree PEmpty []\<rparr>"
    unfolding short tree by simp
  from this [unfolded short tree, symmetric] over show ?thesis
    unfolding short tree by simp
qed

subsection \<open>Bytes behind the attribute\<close>

text \<open>
  A TLV of type 5 and length 3 fills an attribute of six bytes and leaves
  \<open>tlv_len = 2\<close> for its sub-TLVs. The two bytes are the type and the first length
  byte of a sub-TLV header; the rest of that header, the SID-Information value and the
  three sub-TLVs of type 2 that the loop walks before its counter stops it lie behind
  the attribute.
\<close>

lemma attr_loop_behind_attribute:
  assumes sid: "length sid = 16"
    and buf: "buf = [5, 0, 3, 0, 1, 0, 21, 0] @ sid @
                    [flags, 0, 18, 0, 2, 0, 1, 0, 2, 0, 1, 0, 2, 0, 1, 0] @ rest"
  shows "fst (attr_loop inet_ntop buf 6 0 (PTree PEmpty [])) =
         Inr (PTree PEmpty [(''srv6_l3_service'', PTree PEmpty [(''sid_information'', PTree PEmpty
           [(''sid_value'', PTree (PString (inet_ntop sid)) []),
            (''service_sid_flags'', PTree (PNum (unat flags)) []),
            (''endpoint_behavior_codepoint'', PTree (PNum 18) []),
            (''endpoint_behavior'', PTree (PString ''End.DT6'') [])])])])"
proof -
  let ?information = "sid_information_tree inet_ntop
      \<lparr>sid_value = sid, service_sid_flags = flags, endpoint_behavior = 18, sid_reserved = 0\<rparr>"
  let ?pt = "add_child ''sid_information'' ?information (PTree PEmpty [])"
  have bytes:
    "buf ! 0 = 5" "buf ! Suc 0 = 0" "buf ! Suc (Suc 0) = 3" "buf ! 4 = 1" "buf ! 5 = 0" "buf ! 6 = 21"
    "buf ! 24 = flags" "buf ! 25 = 0" "buf ! 26 = 18" "buf ! 27 = 0"
    "buf ! 28 = 2" "buf ! 29 = 0" "buf ! 30 = 1"
    "buf ! 32 = 2" "buf ! 33 = 0" "buf ! 34 = 1"
    "buf ! 36 = 2" "buf ! 37 = 0" "buf ! 38 = 1"
    by (simp_all add: buf sid nth_append)
  have sid_bytes: "take 16 (drop 8 buf) = sid"
    by (simp add: buf sid)
  have "40 \<le> length buf"
    by (simp add: buf sid)
  then have readable: "in_buf buf 0 4" "in_buf buf 4 4" "in_buf buf 8 20" "in_buf buf 28 4"
    "in_buf buf 32 4" "in_buf buf 36 4"
    by (simp_all add: in_buf_def)
  have lens: "uint (be16 buf 1) = 3" "uint (be16 buf 5) = 21" "uint (be16 buf 29) = 1"
    "uint (be16 buf 33) = 1" "uint (be16 buf 37) = 1"
    by (simp_all add: uint_be16 bytes)
  have code: "be16 buf 25 = 18"
    by (simp add: be16_def uint16_of_field_def bytes)
  \<comment> \<open>the SID-Information sub-TLV, whose value starts at offset 8\<close>
  have "fst (sid_information_case inet_ntop buf
        \<lparr>gt_type = 1, gt_len = be16 buf 5, gt_reserved = buf ! 7\<rparr> 8 0 (PTree PEmpty [])) = Inr (0, ?pt)"
    using fst_sid_information_case [OF readable(3),
        of "\<lparr>gt_type = 1, gt_len = be16 buf 5, gt_reserved = buf ! 7\<rparr>" 0 inet_ntop 0 ?information
        "PTree PEmpty []"]
    by (simp add: lens code bytes sid_bytes subsubtlv_loop_stop)
  then have s1: "fst (subtlv_body inet_ntop buf 2 4 0 (PTree PEmpty [])) = Continue (- 22, 28, 1, ?pt)"
    using fst_subtlv_body_sid_information [OF readable(2), of inet_ntop 0 "PTree PEmpty []" 0 ?pt 2]
    by (simp add: lens bytes)
  \<comment> \<open>three sub-TLVs of type 2, then the counter ends the loop\<close>
  have s2: "fst (subtlv_body inet_ntop buf (- 22) 28 1 ?pt) = Continue (- 26, 32, 2, ?pt)"
    using fst_subtlv_body_skip [OF readable(4), where inet_ntop = inet_ntop and tlv_len = "- 22"
        and tlv_cnt = 1 and pt = ?pt]
    by (simp add: lens bytes)
  have s3: "fst (subtlv_body inet_ntop buf (- 26) 32 2 ?pt) = Continue (- 30, 36, 3, ?pt)"
    using fst_subtlv_body_skip [OF readable(5), where inet_ntop = inet_ntop and tlv_len = "- 26"
        and tlv_cnt = 2 and pt = ?pt]
    by (simp add: lens bytes)
  have s4: "fst (subtlv_body inet_ntop buf (- 30) 36 3 ?pt) = Break (- 34, 40, 4, ?pt)"
    using fst_subtlv_body_skip [OF readable(6), where inet_ntop = inet_ntop and tlv_len = "- 30"
        and tlv_cnt = 3 and pt = ?pt]
    by (simp add: lens bytes)
  have "fst (parseSRv6L3ServiceTLV inet_ntop buf 2 4) = Inr ?pt"
    unfolding parseSRv6L3ServiceTLV_def
    using fst_subtlv_loop_continue [OF _ s1] fst_subtlv_loop_continue [OF _ s2]
      fst_subtlv_loop_continue [OF _ s3] fst_subtlv_loop_break [OF _ s4]
    by simp
  then have "fst (attr_body inet_ntop buf 6 0 (PTree PEmpty [])) =
      Continue (0, 6, add_child ''srv6_l3_service'' ?pt (PTree PEmpty []))"
    using fst_attr_body_l3_service [OF readable(1), of inet_ntop ?pt 6 "PTree PEmpty []"]
    by (simp add: lens bytes)
  from fst_attr_loop_continue [OF _ this]
  have "fst (attr_loop inet_ntop buf 6 0 (PTree PEmpty [])) =
      Inr (add_child ''srv6_l3_service'' ?pt (PTree PEmpty []))"
    by (simp add: attr_loop_stop)
  then show ?thesis
    by (simp add: add_child_def put_def sid_information_tree_def endpoint_behavior_18)
qed

text \<open>
  Claim C8 as stated fails. The two inputs below have the same six attribute bytes
  \<open>5, 0, 3, 0, 1, 0\<close> and the same declared length 6, and differ in the flags byte 18
  bytes behind the attribute. The TLV of type 5 and length 3 leaves two bytes for its
  sub-TLVs, the sub-TLV header that starts in them ends behind the attribute, and the
  SID-Information value read there enters the tree: \<open>service_sid_flags\<close> is 0 for one
  input and 1 for the other. The result is not a function of the declared bytes and the
  length.
\<close>

theorem declared_bytes_counterexample:
  "fst (parseBGPPrefixSIDAttr inet_ntop6
      ([5, 0, 3, 0, 1, 0] @
       [21, 0, 0x20, 0x01, 0x0d, 0xb8, 0, 0, 0, 0, 0, 0, 0, 0, 0, 0, 0, 1,
        0, 0, 18, 0, 2, 0, 1, 0, 2, 0, 1, 0, 2, 0, 1, 0])
      6 0 \<lparr>attr_prefix_sid = PTree PEmpty []\<rparr>) =
   Inr \<lparr>attr_prefix_sid =
     PTree PEmpty [(''srv6_l3_service'', PTree PEmpty [(''sid_information'', PTree PEmpty
       [(''sid_value'', PTree (PString ''2001:db8::1'') []),
        (''service_sid_flags'', PTree (PNum 0) []),
        (''endpoint_behavior_codepoint'', PTree (PNum 18) []),
        (''endpoint_behavior'', PTree (PString ''End.DT6'') [])])])]\<rparr> \<and>
   fst (parseBGPPrefixSIDAttr inet_ntop6
      ([5, 0, 3, 0, 1, 0] @
       [21, 0, 0x20, 0x01, 0x0d, 0xb8, 0, 0, 0, 0, 0, 0, 0, 0, 0, 0, 0, 1,
        1, 0, 18, 0, 2, 0, 1, 0, 2, 0, 1, 0, 2, 0, 1, 0])
      6 0 \<lparr>attr_prefix_sid = PTree PEmpty []\<rparr>) =
   Inr \<lparr>attr_prefix_sid =
     PTree PEmpty [(''srv6_l3_service'', PTree PEmpty [(''sid_information'', PTree PEmpty
       [(''sid_value'', PTree (PString ''2001:db8::1'') []),
        (''service_sid_flags'', PTree (PNum 1) []),
        (''endpoint_behavior_codepoint'', PTree (PNum 18) []),
        (''endpoint_behavior'', PTree (PString ''End.DT6'') [])])])]\<rparr> \<and>
   fst (parseBGPPrefixSIDAttr inet_ntop6
      ([5, 0, 3, 0, 1, 0] @
       [21, 0, 0x20, 0x01, 0x0d, 0xb8, 0, 0, 0, 0, 0, 0, 0, 0, 0, 0, 0, 1,
        0, 0, 18, 0, 2, 0, 1, 0, 2, 0, 1, 0, 2, 0, 1, 0])
      6 0 \<lparr>attr_prefix_sid = PTree PEmpty []\<rparr>) \<noteq>
   fst (parseBGPPrefixSIDAttr inet_ntop6
      ([5, 0, 3, 0, 1, 0] @
       [21, 0, 0x20, 0x01, 0x0d, 0xb8, 0, 0, 0, 0, 0, 0, 0, 0, 0, 0, 0, 1,
        1, 0, 18, 0, 2, 0, 1, 0, 2, 0, 1, 0, 2, 0, 1, 0])
      6 0 \<lparr>attr_prefix_sid = PTree PEmpty []\<rparr>)"
proof -
  let ?sid = "[0x20, 0x01, 0x0d, 0xb8, 0, 0, 0, 0, 0, 0, 0, 0, 0, 0, 0, 1] :: u8 list"
  have sid: "length ?sid = 16"
    by simp
  have buf: "[5, 0, 3, 0, 1, 0] @
       [21, 0, 0x20, 0x01, 0x0d, 0xb8, 0, 0, 0, 0, 0, 0, 0, 0, 0, 0, 0, 1,
        flags, 0, 18, 0, 2, 0, 1, 0, 2, 0, 1, 0, 2, 0, 1, 0] =
      [5, 0, 3, 0, 1, 0, 21, 0] @ ?sid @
      [flags, 0, 18, 0, 2, 0, 1, 0, 2, 0, 1, 0, 2, 0, 1, 0 :: u8] @ []" for flags
    by simp
  show ?thesis
    unfolding parseBGPPrefixSIDAttr_def
    using attr_loop_behind_attribute [OF sid buf, of inet_ntop6 0]
      attr_loop_behind_attribute [OF sid buf, of inet_ntop6 1]
    by (simp add: split_beta inet_ntop6_example split: sum.splits)
qed

text \<open>
  Claim C8, amended. Decoding is deterministic and carries no state from one call to
  the next: the tree and the diagnostics are a function of the declared length, the
  start of the attribute and the bytes the decoder reads, whatever \<open>parsed_data\<close> held
  before the call, and the other members of \<open>parsed_data\<close> are left as they were.
  The bytes read are not only the declared ones: a length field that points behind
  the attribute makes the decoder read there. Two buffers that agree on their first
  \<open>n\<close> bytes decode to the same result whenever the decode of these \<open>n\<close> bytes alone
  reads nothing behind them.
\<close>

theorem decode_depends_on_bytes_read:
  "(take n buf = take n buf' \<and>
    fst (parseBGPPrefixSIDAttr inet_ntop (take n buf) attr_len data parsed_data) \<noteq> Inl Overread \<longrightarrow>
      parseBGPPrefixSIDAttr inet_ntop buf attr_len data parsed_data =
      parseBGPPrefixSIDAttr inet_ntop buf' attr_len data parsed_data) \<and>
   snd (parseBGPPrefixSIDAttr inet_ntop buf attr_len data parsed_data) =
     snd (parseBGPPrefixSIDAttr inet_ntop buf attr_len data previous) \<and>
   map_sum id attr_prefix_sid (fst (parseBGPPrefixSIDAttr inet_ntop buf attr_len data parsed_data)) =
     map_sum id attr_prefix_sid (fst (parseBGPPrefixSIDAttr inet_ntop buf attr_len data previous)) \<and>
   (fst (parseBGPPrefixSIDAttr inet_ntop buf attr_len data parsed_data) = Inr parsed_data' \<longrightarrow>
      parsed_update_data.more parsed_data' = parsed_update_data.more parsed_data)"
proof (intro conjI impI; (elim conjE)?)
  assume same: "take n buf = take n buf'"
    and inside: "fst (parseBGPPrefixSIDAttr inet_ntop (take n buf) attr_len data parsed_data) \<noteq> Inl Overread"
  from inside have "fst (attr_loop inet_ntop (take n buf) attr_len data (PTree PEmpty [])) \<noteq> Inl Overread"
    unfolding parseBGPPrefixSIDAttr_def by (auto split: prod.splits sum.splits)
  with attr_loop_take [of inet_ntop n buf attr_len data "PTree PEmpty []"]
    attr_loop_take [of inet_ntop n buf' attr_len data "PTree PEmpty []"] same
  have "attr_loop inet_ntop buf attr_len data (PTree PEmpty []) =
        attr_loop inet_ntop buf' attr_len data (PTree PEmpty [])"
    by simp
  then show "parseBGPPrefixSIDAttr inet_ntop buf attr_len data parsed_data =
      parseBGPPrefixSIDAttr inet_ntop buf' attr_len data parsed_data"
    unfolding parseBGPPrefixSIDAttr_def by simp
next
  show "snd (parseBGPPrefixSIDAttr inet_ntop buf attr_len data parsed_data) =
     snd (parseBGPPrefixSIDAttr inet_ntop buf attr_len data previous)"
    unfolding parseBGPPrefixSIDAttr_def by (auto split: prod.splits sum.splits)
next
  show "map_sum id attr_prefix_sid (fst (parseBGPPrefixSIDAttr inet_ntop buf attr_len data parsed_data)) =
     map_sum id attr_prefix_sid (fst (parseBGPPrefixSIDAttr inet_ntop buf attr_len data previous))"
    unfolding parseBGPPrefixSIDAttr_def by (auto split: prod.splits sum.splits)
next
  assume "fst (parseBGPPrefixSIDAttr inet_ntop buf attr_len data parsed_data) = Inr parsed_data'"
  then show "parsed_update_data.more parsed_data' = parsed_update_data.more parsed_data"
    unfolding parseBGPPrefixSIDAttr_def by (auto split: prod.splits sum.splits)
qed

theorem decode_depends_on_bytes_read_witness:
  "parseBGPPrefixSIDAttr inet_ntop6
      [5, 0, 3, 0, 1, 0, 21, 0, 0x20, 0x01, 0x0d, 0xb8, 0, 0, 0, 0, 0, 0, 0, 0, 0, 0, 0, 1,
       0, 0, 18, 0, 2, 0, 1, 0, 2, 0, 1, 0, 2, 0, 1, 0, 7]
      6 0 \<lparr>attr_prefix_sid = PTree PEmpty []\<rparr> =
   parseBGPPrefixSIDAttr inet_ntop6
      [5, 0, 3, 0, 1, 0, 21, 0, 0x20, 0x01, 0x0d, 0xb8, 0, 0, 0, 0, 0, 0, 0, 0, 0, 0, 0, 1,
       0, 0, 18, 0, 2, 0, 1, 0, 2, 0, 1, 0, 2, 0, 1, 0, 9, 9]
      6 0 \<lparr>attr_prefix_sid = PTree PEmpty []\<rparr> \<and>
   parsed_update_data.more
     (projr (fst (parseBGPPrefixSIDAttr inet_ntop6
        [5, 0, 3, 0, 1, 0, 21, 0, 0x20, 0x01, 0x0d, 0xb8, 0, 0, 0, 0, 0, 0, 0, 0, 0, 0, 0, 1,
         0, 0, 18, 0, 2, 0, 1, 0, 2, 0, 1, 0, 2, 0, 1, 0, 7]
        6 0 \<lparr>attr_prefix_sid = PTree (PString ''previous'') [], \<dots> = True\<rparr>))) = True"
proof -
  let ?sid = "[0x20, 0x01, 0x0d, 0xb8, 0, 0, 0, 0, 0, 0, 0, 0, 0, 0, 0, 1] :: u8 list"
  let ?B = "[5, 0, 3, 0, 1, 0, 21, 0, 0x20, 0x01, 0x0d, 0xb8, 0, 0, 0, 0, 0, 0, 0, 0, 0, 0, 0, 1,
       0, 0, 18, 0, 2, 0, 1, 0, 2, 0, 1, 0, 2, 0, 1, 0] :: u8 list"
  have sid: "length ?sid = 16"
    by simp
  have buf: "?B @ rest = [5, 0, 3, 0, 1, 0, 21, 0] @ ?sid @
      [0, 0, 18, 0, 2, 0, 1, 0, 2, 0, 1, 0, 2, 0, 1, 0 :: u8] @ rest" for rest
    by simp
  have cut: "take 40 (?B @ [7]) = ?B" "take 40 (?B @ [9, 9]) = ?B"
    by simp_all
  from attr_loop_behind_attribute [OF sid buf, of inet_ntop6 "[]"]
  have inside: "fst (parseBGPPrefixSIDAttr inet_ntop6 ?B 6 0 \<lparr>attr_prefix_sid = PTree PEmpty []\<rparr>)
      \<noteq> Inl Overread"
    unfolding parseBGPPrefixSIDAttr_def by (simp add: split_beta split: sum.splits)
  from attr_loop_behind_attribute [OF sid buf, of inet_ntop6 "[7]"]
  obtain r where decoded: "fst (parseBGPPrefixSIDAttr inet_ntop6 (?B @ [7]) 6 0
      \<lparr>attr_prefix_sid = PTree (PString ''previous'') [], \<dots> = True\<rparr>) = Inr r"
    unfolding parseBGPPrefixSIDAttr_def by (simp add: split_beta split: sum.splits)
  from decode_depends_on_bytes_read [where n = 40 and buf = "?B @ [7]" and buf' = "?B @ [9, 9]"
      and inet_ntop = inet_ntop6 and attr_len = 6 and data = 0
      and parsed_data = "\<lparr>attr_prefix_sid = PTree PEmpty []\<rparr>", THEN conjunct1] inside
  have first: "parseBGPPrefixSIDAttr inet_ntop6 (?B @ [7]) 6 0 \<lparr>attr_prefix_sid = PTree PEmpty []\<rparr> =
      parseBGPPrefixSIDAttr inet_ntop6 (?B @ [9, 9]) 6 0 \<lparr>attr_prefix_sid = PTree PEmpty []\<rparr>"
    unfolding cut by simp
  from decode_depends_on_bytes_read [where buf = "?B @ [7]" and inet_ntop = inet_ntop6
      and attr_len = 6 and data = 0 and parsed_data' = r
      and parsed_data = "\<lparr>attr_prefix_sid = PTree (PString ''previous'') [], \<dots> = True\<rparr>",
      THEN conjunct2, THEN conjunct2, THEN conjunct2] decoded
  have "parsed_update_data.more r = True"
    by simp
  with first decoded show ?thesis
    by simp
qed

subsection \<open>One child for each recognized element a loop processes\<close>













end
